theory Spec2Isabelle
  imports Complex_Main
begin

section \<open>JavaScript values\<close>

text \<open>
  The link stores, serialises and inspects JavaScript values: the mutation document, its
  variables, the optimistic response, the error a rejected mutation carries. They are
  modelled by one datatype:
  \<^item> \<^verbatim>\<open>undefined\<close>, \<^verbatim>\<open>null\<close>, the booleans and the strings;
  \<^item> the numbers: a finite number other than \<^verbatim>\<open>-0\<close> by its value (no arithmetic is
    done on it), and \<^verbatim>\<open>-0\<close>, \<^verbatim>\<open>NaN\<close> and the two infinities (\<open>True\<close> for the
    positive one) by themselves;
  \<^item> a function; a Date, by the ISO string its \<^verbatim>\<open>toJSON\<close> answers;
  \<^item> an array, by its elements; a plain object, by the list of its own properties
    (enumerable data properties, in enumeration order);
  \<^item> an instance of a class (one that is not iterable and has no \<^verbatim>\<open>toJSON\<close>), by the
    name of the class and the instance's own enumerable properties.

  Symbols and BigInts are not modelled.
\<close>

datatype jsval =
    JUndefined
  | JNull
  | JBool bool
  | JNum rat
  | JNegZero
  | JNaN
  | JInfinity bool
  | JStr string
  | JFunction
  | JDate string
  | JArr "jsval list"
  | JObj "(string \<times> jsval) list"
  | JInstance string "(string \<times> jsval) list"

datatype js_error = TypeError | SyntaxError | Error string

text \<open>ToBoolean, as used by \<^verbatim>\<open>if (x)\<close> and \<^verbatim>\<open>!x\<close>.\<close>

fun truthy :: "jsval \<Rightarrow> bool" where
  "truthy JUndefined = False"
| "truthy JNull = False"
| "truthy (JBool b) = b"
| "truthy (JNum n) = (n \<noteq> 0)"
| "truthy JNegZero = False"
| "truthy JNaN = False"
| "truthy (JInfinity b) = True"
| "truthy (JStr s) = (s \<noteq> [])"
| "truthy JFunction = True"
| "truthy (JDate s) = True"
| "truthy (JArr xs) = True"
| "truthy (JObj ps) = True"
| "truthy (JInstance c ps) = True"

text \<open>The value of property \<open>p\<close> of an object given by its property list.\<close>

definition get_prop :: "(string \<times> jsval) list \<Rightarrow> string \<Rightarrow> jsval" where
  "get_prop ps p = (case map_of ps p of None \<Rightarrow> JUndefined | Some v \<Rightarrow> v)"

text \<open>
  \<^verbatim>\<open>v.p\<close> for a property name \<open>p\<close> that is neither an index nor \<^verbatim>\<open>length\<close>
  (the link reads \<^verbatim>\<open>networkError\<close> and \<^verbatim>\<open>response\<close> this way): reading a
  property of \<^verbatim>\<open>undefined\<close> or \<^verbatim>\<open>null\<close> throws a TypeError; a plain object and
  an instance answer with their own property; arrays, functions, Dates and primitives
  have no such property.
\<close>

fun js_get :: "jsval \<Rightarrow> string \<Rightarrow> js_error + jsval" where
  "js_get JUndefined p = Inl TypeError"
| "js_get JNull p = Inl TypeError"
| "js_get (JObj ps) p = Inr (get_prop ps p)"
| "js_get (JInstance c ps) p = Inr (get_prop ps p)"
| "js_get v p = Inr JUndefined"

section \<open>The insertion-ordered Map\<close>

text \<open>
  \<^verbatim>\<open>this.queue\<close> is a JavaScript Map: its entries are kept in insertion order and
  \<^verbatim>\<open>set\<close> on a key already present replaces the value in place. Keys are compared
  by SameValueZero: primitives by value, \<^verbatim>\<open>NaN\<close> equal to itself, and \<^verbatim>\<open>-0\<close> the
  same key as \<^verbatim>\<open>0\<close>, as which it is stored. The keys the link creates are uuid
  strings; keys that are objects, which only a storage the link did not write can
  bring in, are compared by their structure here.
\<close>

type_synonym jsmap = "(jsval \<times> jsval) list"

definition Map_key :: "jsval \<Rightarrow> jsval" where
  "Map_key k = (if k = JNegZero then JNum 0 else k)"

definition Map_size :: "jsmap \<Rightarrow> nat" where
  "Map_size m = length m"

definition Map_has :: "jsmap \<Rightarrow> jsval \<Rightarrow> bool" where
  "Map_has m k = (Map_key k \<in> fst ` set m)"

definition Map_set :: "jsmap \<Rightarrow> jsval \<Rightarrow> jsval \<Rightarrow> jsmap" where
  "Map_set m k v =
     (if Map_has m k then map (\<lambda>e. if fst e = Map_key k then (Map_key k, v) else e) m
      else m @ [(Map_key k, v)])"

definition Map_delete :: "jsmap \<Rightarrow> jsval \<Rightarrow> jsmap" where
  "Map_delete m k = filter (\<lambda>e. fst e \<noteq> Map_key k) m"

text \<open>
  \<^verbatim>\<open>new Map(iterable)\<close>: \<^verbatim>\<open>undefined\<close> and \<^verbatim>\<open>null\<close> give the empty Map; an array
  is read entry by entry, each entry being an object whose properties \<^verbatim>\<open>0\<close> and
  \<^verbatim>\<open>1\<close> are the key and the value (a function and a Date are objects without
  them); an entry that is not an object, and a value that is not iterable, throw a
  TypeError. A string is iterable and yields its characters, which are not objects.
\<close>

fun entry_of :: "jsval \<Rightarrow> js_error + (jsval \<times> jsval)" where
  "entry_of (JArr []) = Inr (JUndefined, JUndefined)"
| "entry_of (JArr [k]) = Inr (k, JUndefined)"
| "entry_of (JArr (k # v # rest)) = Inr (k, v)"
| "entry_of (JObj ps) = Inr (get_prop ps ''0'', get_prop ps ''1'')"
| "entry_of (JInstance c ps) = Inr (get_prop ps ''0'', get_prop ps ''1'')"
| "entry_of JFunction = Inr (JUndefined, JUndefined)"
| "entry_of (JDate s) = Inr (JUndefined, JUndefined)"
| "entry_of v = Inl TypeError"

fun add_entries :: "jsmap \<Rightarrow> jsval list \<Rightarrow> js_error + jsmap" where
  "add_entries m [] = Inr m"
| "add_entries m (e # es) =
     (case entry_of e of
        Inl err \<Rightarrow> Inl err
      | Inr (k, v) \<Rightarrow> add_entries (Map_set m k v) es)"

fun new_Map :: "jsval \<Rightarrow> js_error + jsmap" where
  "new_Map JUndefined = Inr []"
| "new_Map JNull = Inr []"
| "new_Map (JArr es) = add_entries [] es"
| "new_Map (JStr s) = (if s = [] then Inr [] else Inl TypeError)"
| "new_Map v = Inl TypeError"

text \<open>\<^verbatim>\<open>[...map]\<close>: the entries as two-element arrays, in insertion order.\<close>

definition spread_Map :: "jsmap \<Rightarrow> jsval list" where
  "spread_Map m = map (\<lambda>e. JArr [fst e, snd e]) m"

section \<open>JSON\<close>

text \<open>
  What \<^verbatim>\<open>JSON.stringify\<close> writes for a value, given as the value the written text
  denotes. Nothing is written for \<^verbatim>\<open>undefined\<close> and for a function (\<open>None\<close>): an
  array gets \<^verbatim>\<open>null\<close> in the place of such an element and an object no property for
  such a value. \<^verbatim>\<open>NaN\<close> and the infinities are written as \<^verbatim>\<open>null\<close>, \<^verbatim>\<open>-0\<close> as
  \<^verbatim>\<open>0\<close>, a Date as the string its \<^verbatim>\<open>toJSON\<close> answers, and an instance as the plain
  object of its own enumerable properties.
\<close>

fun to_json :: "jsval \<Rightarrow> jsval option"
  and to_json_elems :: "jsval list \<Rightarrow> jsval list"
  and to_json_props :: "(string \<times> jsval) list \<Rightarrow> (string \<times> jsval) list" where
  "to_json JUndefined = None"
| "to_json JFunction = None"
| "to_json JNaN = Some JNull"
| "to_json (JInfinity b) = Some JNull"
| "to_json JNegZero = Some (JNum 0)"
| "to_json (JDate s) = Some (JStr s)"
| "to_json (JArr xs) = Some (JArr (to_json_elems xs))"
| "to_json (JObj ps) = Some (JObj (to_json_props ps))"
| "to_json (JInstance c ps) = Some (JObj (to_json_props ps))"
| "to_json v = Some v"
| "to_json_elems [] = []"
| "to_json_elems (x # xs) =
     (case to_json x of None \<Rightarrow> JNull | Some y \<Rightarrow> y) # to_json_elems xs"
| "to_json_props [] = []"
| "to_json_props ((k, v) # ps) =
     (case to_json v of None \<Rightarrow> [] | Some y \<Rightarrow> [(k, y)]) @ to_json_props ps"

text \<open>
  A stored string is used by the link only as the argument of \<^verbatim>\<open>JSON.parse\<close>, so a
  string is represented by what parsing makes of it: the value it denotes (built from
  \<^verbatim>\<open>null\<close>, booleans, numbers, strings, arrays and plain objects), or the fact that
  it is not JSON text.
\<close>

datatype jstring = JsonText jsval | Malformed

definition JSON_stringify :: "jsval \<Rightarrow> jstring option" where
  "JSON_stringify v = map_option JsonText (to_json v)"

text \<open>
  \<^verbatim>\<open>JSON.parse\<close> of what \<^verbatim>\<open>getItem\<close> resolved with: a string, or \<^verbatim>\<open>null\<close>
  (\<open>None\<close>) when the key is absent; \<^verbatim>\<open>null\<close> is converted to the text \<^verbatim>\<open>null\<close>.
\<close>

fun JSON_parse :: "jstring option \<Rightarrow> js_error + jsval" where
  "JSON_parse None = Inr JNull"
| "JSON_parse (Some (JsonText v)) = Inr v"
| "JSON_parse (Some Malformed) = Inl SyntaxError"

section \<open>Promises\<close>

text \<open>
  The settled state of a promise the link waits for: \<^verbatim>\<open>storage.getItem\<close> and
  \<^verbatim>\<open>client.mutate\<close> either resolve with a value or reject with an error value.
\<close>

datatype 'a promise = Resolved 'a | Rejected jsval

text \<open>What a call of the storage provider returns: a value, or a promise of one.\<close>

datatype 'a returned = Value 'a | Promise "'a promise"

text \<open>
  The two kinds of storage provider the constructor's documentation names:
  \<^verbatim>\<open>window.localStorage\<close>, whose \<^verbatim>\<open>getItem\<close> returns the stored string (or
  \<^verbatim>\<open>null\<close>) itself, and AsyncStorage, whose \<^verbatim>\<open>getItem\<close> returns a promise of it.
  The promise of a read can also be rejected; \<open>Failing err\<close> is a provider of the
  second kind at a time its reads are rejected with \<open>err\<close>.
\<close>

datatype provider = Synchronous | Asynchronous | Failing jsval

section \<open>The debounced function\<close>

text \<open>
  \<^verbatim>\<open>this.delayedSync\<close> is \<^verbatim>\<open>debounce(this.sync, retryInterval)\<close> of lodash with
  its default options (trailing edge only, no \<^verbatim>\<open>maxWait\<close>). The functions below are
  those of lodash's implementation, under their names there, over a clock that counts
  milliseconds: \<open>timerId\<close> holds the time at which the pending timeout is due,
  \<open>lastArgs\<close> tells whether a call is waiting for the trailing edge, and invoking
  the debounced function is reported to the caller instead of done.
\<close>

record debounced =
  wait :: nat
  lastCallTime :: "nat option"
  lastArgs :: bool
  timerId :: "nat option"

definition debounce :: "nat \<Rightarrow> debounced" where
  "debounce w = \<lparr>wait = w, lastCallTime = None, lastArgs = False, timerId = None\<rparr>"

definition shouldInvoke :: "debounced \<Rightarrow> nat \<Rightarrow> bool" where
  "shouldInvoke d time =
     (case lastCallTime d of
        None \<Rightarrow> True
      | Some t \<Rightarrow> t + wait d \<le> time \<or> time < t)"

definition remainingWait :: "debounced \<Rightarrow> nat \<Rightarrow> nat" where
  "remainingWait d time =
     (case lastCallTime d of
        None \<Rightarrow> wait d
      | Some t \<Rightarrow> wait d - (time - t))"

definition leadingEdge :: "debounced \<Rightarrow> nat \<Rightarrow> debounced" where
  "leadingEdge d time = d\<lparr>timerId := Some (time + wait d)\<rparr>"

text \<open>A call of the debounced function at \<open>time\<close>.\<close>

definition debounced_call :: "debounced \<Rightarrow> nat \<Rightarrow> debounced" where
  "debounced_call d time =
     (let isInvoking = shouldInvoke d time;
          d1 = d\<lparr>lastArgs := True, lastCallTime := Some time\<rparr>
      in if isInvoking \<and> timerId d1 = None then leadingEdge d1 time
         else if timerId d1 = None then d1\<lparr>timerId := Some (time + wait d1)\<rparr>
         else d1)"

text \<open>The trailing edge; the flag tells whether the debounced function is invoked.\<close>

definition trailingEdge :: "debounced \<Rightarrow> bool \<times> debounced" where
  "trailingEdge d = (lastArgs d, d\<lparr>timerId := None, lastArgs := False\<rparr>)"

text \<open>The timeout callback, run at \<open>time\<close>.\<close>

definition timerExpired :: "debounced \<Rightarrow> nat \<Rightarrow> bool \<times> debounced" where
  "timerExpired d time =
     (if shouldInvoke d time then trailingEdge d
      else (False, d\<lparr>timerId := Some (time + remainingWait d time)\<rparr>))"

section \<open>The link\<close>

record operation =
  query :: jsval
  variables :: jsval
  getContext :: "(string \<times> jsval) list"

text \<open>What the link does to its collaborators, in the order it does it.\<close>

datatype event =
    SetItem string jstring
  | WriteQuery nat bool
  | Forward operation
  | Mutate jsval
  | ObserverNext jsval
  | ObserverError jsval
  | ObserverComplete

text \<open>
  The link after \<^verbatim>\<open>setup\<close> has given it its client: the storage provider's kind
  and content, the \<^verbatim>\<open>sequential\<close> option, the queue, the debounced \<^verbatim>\<open>delayedSync\<close>, the
  SyncStatus object last written to the client's cache, and the trace of events.
  Each function below is one piece of code that JavaScript runs to completion; what
  the network and the clock contribute is passed in as arguments.
\<close>

record link_state =
  provider :: provider
  storage :: "string \<rightharpoonup> jstring"
  sequential :: bool
  queue :: jsmap
  delayedSync :: debounced
  syncStatus :: "(nat \<times> bool) option"
  trace :: "event list"

definition emit :: "link_state \<Rightarrow> event \<Rightarrow> link_state" where
  "emit st e = st\<lparr>trace := trace st @ [e]\<rparr>"

text \<open>
  The constructor: the storage provider is required; \<^verbatim>\<open>retryInterval\<close> defaults to
  30000 and \<^verbatim>\<open>sequential\<close> to false.
\<close>

definition OfflineLink :: "(provider \<times> (string \<rightharpoonup> jstring)) option \<Rightarrow> nat option \<Rightarrow> bool option \<Rightarrow> js_error + link_state" where
  "OfflineLink storage_opt retryInterval_opt sequential_opt =
     (case storage_opt of
        None \<Rightarrow> Inl (Error ''Storage is required, it can be window.localStorage, AsyncStorage, etc.'')
      | Some (api, content) \<Rightarrow>
          Inr \<lparr>provider = api,
               storage = content,
               sequential = (case sequential_opt of None \<Rightarrow> False | Some b \<Rightarrow> b),
               queue = [],
               delayedSync = debounce (case retryInterval_opt of None \<Rightarrow> 30000 | Some n \<Rightarrow> n),
               syncStatus = None,
               trace = []\<rparr>)"

definition setItem :: "link_state \<Rightarrow> string \<Rightarrow> jstring \<Rightarrow> link_state" where
  "setItem st key s = emit (st\<lparr>storage := (storage st)(key \<mapsto> s)\<rparr>) (SetItem key s)"

text \<open>
  \<^verbatim>\<open>this.storage.getItem(key)\<close>: the stored string, or \<^verbatim>\<open>null\<close> when there is
  none, returned as the provider returns it.
\<close>

definition getItem :: "link_state \<Rightarrow> string \<Rightarrow> jstring option returned" where
  "getItem st key =
     (case provider st of
        Synchronous \<Rightarrow> Value (storage st key)
      | Asynchronous \<Rightarrow> Promise (Resolved (storage st key))
      | Failing err \<Rightarrow> Promise (Rejected err))"

text \<open>
  The callbacks of \<^verbatim>\<open>getQueue\<close> on the settled read: \<^verbatim>\<open>then\<close> parses and rebuilds
  the Map (a Map is truthy, so the \<^verbatim>\<open>|| new Map()\<close> is never taken); \<^verbatim>\<open>catch\<close>
  answers a rejected read and an exception of the \<^verbatim>\<open>then\<close> callback with an empty
  Map.
\<close>

definition getQueue_settled :: "jstring option promise \<Rightarrow> jsmap" where
  "getQueue_settled r =
     (case r of
        Rejected err \<Rightarrow> []
      | Resolved stored \<Rightarrow>
          (case JSON_parse stored of
             Inl e \<Rightarrow> []
           | Inr v \<Rightarrow> (case new_Map v of Inl e \<Rightarrow> [] | Inr m \<Rightarrow> m)))"

text \<open>
  \<^verbatim>\<open>getQueue\<close> calls \<^verbatim>\<open>.then\<close> on what \<^verbatim>\<open>getItem\<close> returned. On a promise this
  attaches the two callbacks. \<^verbatim>\<open>null\<close> has no properties and a string has no
  \<^verbatim>\<open>then\<close> to call: with either \<^verbatim>\<open>getQueue\<close> throws a TypeError, before there is
  any \<^verbatim>\<open>catch\<close>.
\<close>

definition getQueue :: "link_state \<Rightarrow> js_error + jsmap" where
  "getQueue st =
     (case getItem st ''@offlineLink'' of
        Value v \<Rightarrow> Inl TypeError
      | Promise r \<Rightarrow> Inr (getQueue_settled r))"

definition updateStatus :: "link_state \<Rightarrow> bool \<Rightarrow> link_state" where
  "updateStatus st inflight =
     emit (st\<lparr>syncStatus := Some (Map_size (queue st), inflight)\<rparr>)
          (WriteQuery (Map_size (queue st)) inflight)"

text \<open>
  \<^verbatim>\<open>saveQueue\<close>. The argument of \<^verbatim>\<open>JSON.stringify\<close> is an array, so a string is
  always written; \<^verbatim>\<open>setItem\<close> would turn \<^verbatim>\<open>undefined\<close> into a string that is not
  JSON text.
\<close>

definition saveQueue :: "link_state \<Rightarrow> link_state" where
  "saveQueue st =
     updateStatus
       (setItem st ''@offlineLink''
          (case JSON_stringify (JArr (spread_Map (queue st))) of
             None \<Rightarrow> Malformed
           | Some s \<Rightarrow> s))
       False"

text \<open>\<^verbatim>\<open>add\<close>; \<open>uuid\<close> is what \<^verbatim>\<open>uuidv4()\<close> returned.\<close>

definition add :: "link_state \<Rightarrow> string \<Rightarrow> jsval \<Rightarrow> jsval \<times> link_state" where
  "add st uuid item =
     (let attemptId = JStr uuid
      in (attemptId, saveQueue (st\<lparr>queue := Map_set (queue st) attemptId item\<rparr>)))"

definition remove :: "link_state \<Rightarrow> jsval \<Rightarrow> link_state" where
  "remove st attemptId = saveQueue (st\<lparr>queue := Map_delete (queue st) attemptId\<rparr>)"

text \<open>\<^verbatim>\<open>this.delayedSync()\<close> at time \<open>now\<close>.\<close>

definition call_delayedSync :: "link_state \<Rightarrow> nat \<Rightarrow> link_state" where
  "call_delayedSync st now = st\<lparr>delayedSync := debounced_call (delayedSync st) now\<rparr>"

section \<open>Interception: request\<close>

text \<open>
  \<^verbatim>\<open>request(operation, forward)\<close> together with the subscription to the Observable
  it returns. Without an optimistic response the operation is forwarded and nothing is
  queued (\<open>None\<close>); otherwise the attempt is added and then the operation is forwarded,
  and the attempt's id is what the three callbacks below close over.
\<close>

definition request :: "link_state \<Rightarrow> operation \<Rightarrow> string \<Rightarrow> jsval option \<times> link_state" where
  "request st operation uuid =
     (let optimisticResponse = get_prop (getContext operation) ''optimisticResponse''
      in if \<not> truthy optimisticResponse then (None, emit st (Forward operation))
         else
           (let (attemptId, st1) =
                  add st uuid
                    (JObj [(''mutation'', query operation),
                           (''variables'', variables operation),
                           (''optimisticResponse'', optimisticResponse)])
            in (Some attemptId, emit st1 (Forward operation))))"

text \<open>The \<^verbatim>\<open>next\<close> callback: the forwarded mutation delivered a result.\<close>

definition request_next :: "link_state \<Rightarrow> jsval \<Rightarrow> jsval \<Rightarrow> link_state" where
  "request_next st attemptId result = emit (remove st attemptId) (ObserverNext result)"

text \<open>The \<^verbatim>\<open>error\<close> callback, run at time \<open>now\<close>: the forwarded mutation failed.\<close>

definition request_error :: "link_state \<Rightarrow> operation \<Rightarrow> nat \<Rightarrow> jsval \<Rightarrow> link_state" where
  "request_error st operation now networkError =
     (let st1 = call_delayedSync st now;
          st2 = emit st1
                  (ObserverNext
                     (JObj [(''data'', get_prop (getContext operation) ''optimisticResponse''),
                            (''dataPresent'', JBool True),
                            (''errors'', JArr [])]))
      in emit st2 ObserverComplete)"

definition request_complete :: "link_state \<Rightarrow> link_state" where
  "request_complete st = emit st ObserverComplete"

section \<open>Resynchronisation: sync\<close>

text \<open>
  The own enumerable properties an object spread copies, and the assignment of one
  property in an object literal.
\<close>

fun digits :: "nat \<Rightarrow> string" where
  "digits n =
     (if n < 10 then [char_of (48 + n)]
      else digits (n div 10) @ [char_of (48 + n mod 10)])"

declare digits.simps [simp del]

definition indexed :: "jsval list \<Rightarrow> (string \<times> jsval) list" where
  "indexed xs = map (\<lambda>i. (digits i, xs ! i)) [0..<length xs]"

fun own_props :: "jsval \<Rightarrow> (string \<times> jsval) list" where
  "own_props (JObj ps) = ps"
| "own_props (JInstance c ps) = ps"
| "own_props (JArr xs) = indexed xs"
| "own_props (JStr s) = indexed (map (\<lambda>c. JStr [c]) s)"
| "own_props v = []"

definition set_prop :: "(string \<times> jsval) list \<Rightarrow> string \<Rightarrow> jsval \<Rightarrow> (string \<times> jsval) list" where
  "set_prop ps p v =
     (if p \<in> fst ` set ps then map (\<lambda>e. if fst e = p then (p, v) else e) ps
      else ps @ [(p, v)])"

text \<open>\<^verbatim>\<open>{...attempt, optimisticResponse: undefined}\<close>.\<close>

definition replay_options :: "jsval \<Rightarrow> jsval" where
  "replay_options attempt =
     JObj (set_prop (own_props attempt) ''optimisticResponse'' JUndefined)"

text \<open>\<^verbatim>\<open>err.networkError.response\<close>.\<close>

definition networkError_response :: "jsval \<Rightarrow> js_error + jsval" where
  "networkError_response err =
     (case js_get err ''networkError'' of
        Inl e \<Rightarrow> Inl e
      | Inr networkError \<Rightarrow> js_get networkError ''response'')"

definition queue_delete :: "link_state \<Rightarrow> jsval \<Rightarrow> link_state" where
  "queue_delete st attemptId = st\<lparr>queue := Map_delete (queue st) attemptId\<rparr>"

text \<open>
  Sequential mode, the callbacks on the promise of one replay: \<^verbatim>\<open>then\<close> deletes and
  answers true; \<^verbatim>\<open>catch\<close> deletes and answers true when the error has a response,
  answers false when it has none, and throws when the error has no \<^verbatim>\<open>networkError\<close>
  to read the response from.
\<close>

definition replay_sequential :: "link_state \<Rightarrow> jsval \<Rightarrow> jsval promise \<Rightarrow> (js_error + bool) \<times> link_state" where
  "replay_sequential st attemptId r =
     (case r of
        Resolved v \<Rightarrow> (Inr True, queue_delete st attemptId)
      | Rejected err \<Rightarrow>
          (case networkError_response err of
             Inl e \<Rightarrow> (Inl e, st)
           | Inr response \<Rightarrow>
               if truthy response then (Inr True, queue_delete st attemptId)
               else (Inr False, st)))"

text \<open>
  The loop over the snapshot \<^verbatim>\<open>Array.from(queue)\<close>. \<open>net attemptId\<close> is how the
  promise of the replay of that attempt settles. The loop stops at the first replay that
  answers false, and an exception of a callback ends \<^verbatim>\<open>sync\<close> as a whole.
\<close>

fun sync_sequential :: "link_state \<Rightarrow> (jsval \<times> jsval) list \<Rightarrow> (jsval \<Rightarrow> jsval promise) \<Rightarrow> js_error option \<times> link_state" where
  "sync_sequential st [] net = (None, st)"
| "sync_sequential st ((attemptId, attempt) # attempts) net =
     (let st1 = emit st (Mutate (replay_options attempt))
      in case replay_sequential st1 attemptId (net attemptId) of
           (Inl e, st2) \<Rightarrow> (Some e, st2)
         | (Inr success, st2) \<Rightarrow>
             if \<not> success then (None, st2) else sync_sequential st2 attempts net)"

text \<open>Concurrent mode, the callbacks on the promise of one replay.\<close>

definition replay_concurrent :: "link_state \<Rightarrow> jsval \<Rightarrow> jsval promise \<Rightarrow> js_error option \<times> link_state" where
  "replay_concurrent st attemptId r =
     (case r of
        Resolved v \<Rightarrow> (None, queue_delete st attemptId)
      | Rejected err \<Rightarrow>
          (case networkError_response err of
             Inl e \<Rightarrow> (Some e, st)
           | Inr response \<Rightarrow>
               if truthy response then (None, queue_delete st attemptId) else (None, st)))"

text \<open>All replays are started at once, in the order of the snapshot.\<close>

fun mutate_all :: "link_state \<Rightarrow> (jsval \<times> jsval) list \<Rightarrow> link_state" where
  "mutate_all st [] = st"
| "mutate_all st ((attemptId, attempt) # attempts) = mutate_all (emit st (Mutate attempt)) attempts"

text \<open>
  The promises settle in any order: \<open>choices\<close> picks, at each step, which of the
  pending replays settles next (the first one once the list is used up). Every callback
  runs, also after one of them has thrown; \<^verbatim>\<open>Promise.all\<close> rejects with the first
  exception.
\<close>

function settle_concurrent :: "link_state \<Rightarrow> (jsval \<times> jsval) list \<Rightarrow> nat list \<Rightarrow> (jsval \<Rightarrow> jsval promise) \<Rightarrow> js_error option \<times> link_state" where
  "settle_concurrent st [] choices net = (None, st)"
| "settle_concurrent st (p # ps) choices net =
     (let pending = p # ps;
          i = (case choices of [] \<Rightarrow> 0 | c # cs \<Rightarrow> c mod length pending);
          (attemptId, attempt) = pending ! i;
          (e, st1) = replay_concurrent st attemptId (net attemptId);
          (e', st2) = settle_concurrent st1 (take i pending @ drop (Suc i) pending) (tl choices) net
      in (case e of None \<Rightarrow> e' | Some x \<Rightarrow> Some x, st2))"
  by pat_completeness auto
termination
  by (relation "measure (\<lambda>(st, pending, choices, net). length pending)")
     (auto split: list.splits)

text \<open>The end of a pass that threw nothing, at time \<open>now\<close>.\<close>

definition sync_end :: "link_state \<Rightarrow> nat \<Rightarrow> link_state" where
  "sync_end st now =
     (let st1 = saveQueue st
      in if Map_size (queue st1) > 0 then call_delayedSync st1 now else st1)"

text \<open>
  \<^verbatim>\<open>sync\<close>, run without other callbacks of the link in between. The result tells
  whether the promise \<^verbatim>\<open>sync\<close> returns is rejected.
\<close>

definition sync :: "link_state \<Rightarrow> (jsval \<Rightarrow> jsval promise) \<Rightarrow> nat list \<Rightarrow> nat \<Rightarrow> js_error option \<times> link_state" where
  "sync st net choices now =
     (if Map_size (queue st) < 1 then (None, st)
      else
        (let st1 = updateStatus st True;
             attempts = queue st1
         in case (if sequential st1 then sync_sequential st1 attempts net
                  else settle_concurrent (mutate_all st1 attempts) attempts choices net) of
              (Some e, st2) \<Rightarrow> (Some e, st2)
            | (None, st2) \<Rightarrow> (None, sync_end st2 now)))"

text \<open>
  \<^verbatim>\<open>setup\<close>: the queue is hydrated, then synchronised; an exception of \<^verbatim>\<open>getQueue\<close>
  rejects the promise \<^verbatim>\<open>setup\<close> returns.
\<close>

definition setup_link :: "link_state \<Rightarrow> (jsval \<Rightarrow> jsval promise) \<Rightarrow> nat list \<Rightarrow> nat \<Rightarrow> js_error option \<times> link_state" where
  "setup_link st net choices now =
     (case getQueue st of
        Inl e \<Rightarrow> (Some e, st)
      | Inr q \<Rightarrow> sync (st\<lparr>queue := q\<rparr>) net choices now)"

section \<open>Timelines of the debounced function\<close>

text \<open>
  The timeouts due up to and including time \<open>T\<close> run, each at the time it is due;
  the result lists the times at which the debounced function was invoked.
\<close>

function run_timers :: "debounced \<Rightarrow> nat \<Rightarrow> nat list \<times> debounced" where
  "run_timers d T =
     (case timerId d of
        None \<Rightarrow> ([], d)
      | Some due \<Rightarrow>
          if T < due then ([], d)
          else
            (let (invoked, d1) = timerExpired d due;
                 (times, d2) = run_timers d1 T
             in ((if invoked then [due] else []) @ times, d2)))"
  by pat_completeness auto
termination
  by (relation "measure (\<lambda>(d, T). case timerId d of None \<Rightarrow> 0 | Some due \<Rightarrow> Suc T - due)")
     (auto simp: timerExpired_def trailingEdge_def shouldInvoke_def remainingWait_def
           split: if_splits option.splits)

declare run_timers.simps [simp del]

text \<open>Consecutive calls follow each other by less than \<open>w\<close>.\<close>

fun closely_spaced :: "nat \<Rightarrow> nat list \<Rightarrow> bool" where
  "closely_spaced w (t # t' # ts) = (t \<le> t' \<and> t' < t + w \<and> closely_spaced w (t' # ts))"
| "closely_spaced w ts = True"

text \<open>
  A call made at \<open>t\<close> is waiting for its trailing edge: the timeout that is pending
  is due no later than \<open>t + w\<close>.
\<close>

definition waiting :: "nat \<Rightarrow> debounced \<Rightarrow> nat \<Rightarrow> bool" where
  "waiting w d t =
     (wait d = w \<and> lastCallTime d = Some t \<and> lastArgs d
      \<and> (case timerId d of None \<Rightarrow> False | Some due \<Rightarrow> t \<le> due \<and> due \<le> t + w))"

section \<open>Timelines of the link\<close>

text \<open>
  The timeout of \<^verbatim>\<open>delayedSync\<close> at the link, run at time \<open>now\<close>: lodash's
  \<^verbatim>\<open>timerExpired\<close>, which on the trailing edge invokes \<^verbatim>\<open>this.sync\<close>. The pass is
  taken to end at the time it starts. The flag tells whether \<^verbatim>\<open>sync\<close> was executed.
\<close>

definition delayedSync_timeout :: "link_state \<Rightarrow> nat \<Rightarrow> (jsval \<Rightarrow> jsval promise) \<Rightarrow> nat list \<Rightarrow> bool \<times> link_state" where
  "delayedSync_timeout st now net choices =
     (let (invoked, d) = timerExpired (delayedSync st) now;
          st1 = st\<lparr>delayedSync := d\<rparr>
      in if invoked then (True, snd (sync st1 net choices now)) else (False, st1))"

text \<open>
  The timeouts of the link due up to and including time \<open>T\<close> run, each at the time
  it is due; the result lists the times at which \<^verbatim>\<open>sync\<close> was executed. An execution
  that leaves attempts in the queue sets the next timeout, so the timeouts may go on
  for as long as the network fails: \<open>fuel\<close> bounds how many of them run, and the
  answer is \<open>None\<close> when more are due. \<open>net\<close> and \<open>choices\<close> tell, for the
  time of an execution, how the network answers it.
\<close>

fun run_link_timers :: "nat \<Rightarrow> link_state \<Rightarrow> nat \<Rightarrow> (nat \<Rightarrow> jsval \<Rightarrow> jsval promise) \<Rightarrow> (nat \<Rightarrow> nat list) \<Rightarrow> (nat list \<times> link_state) option" where
  "run_link_timers 0 st T net choices =
     (case timerId (delayedSync st) of
        None \<Rightarrow> Some ([], st)
      | Some due \<Rightarrow> if T < due then Some ([], st) else None)"
| "run_link_timers (Suc fuel) st T net choices =
     (case timerId (delayedSync st) of
        None \<Rightarrow> Some ([], st)
      | Some due \<Rightarrow>
          if T < due then Some ([], st)
          else
            (let (invoked, st1) = delayedSync_timeout st due (net due) (choices due)
             in case run_link_timers fuel st1 T net choices of
                  None \<Rightarrow> None
                | Some (later, st2) \<Rightarrow> Some ((if invoked then [due] else []) @ later, st2)))"

text \<open>
  What asks for a cycle: the \<^verbatim>\<open>error\<close> callback of an intercepted write, and the end
  of a pass that leaves attempts in the queue.
\<close>

datatype trigger = FailedWrite operation jsval | PassEnds

definition trigger_at :: "link_state \<Rightarrow> nat \<Rightarrow> trigger \<Rightarrow> link_state" where
  "trigger_at st now ev =
     (case ev of
        FailedWrite operation networkError \<Rightarrow> request_error st operation now networkError
      | PassEnds \<Rightarrow> sync_end st now)"

text \<open>
  The triggers happen at their times, in this order; before each the timeouts due by
  then have run.
\<close>

fun run_triggers :: "nat \<Rightarrow> link_state \<Rightarrow> (nat \<times> trigger) list \<Rightarrow> (nat \<Rightarrow> jsval \<Rightarrow> jsval promise) \<Rightarrow> (nat \<Rightarrow> nat list) \<Rightarrow> (nat list \<times> link_state) option" where
  "run_triggers fuel st [] net choices = Some ([], st)"
| "run_triggers fuel st ((t, ev) # evs) net choices =
     (case run_link_timers fuel st t net choices of
        None \<Rightarrow> None
      | Some (earlier, st1) \<Rightarrow>
          (case run_triggers fuel (trigger_at st1 t ev) evs net choices of
             None \<Rightarrow> None
           | Some (later, st2) \<Rightarrow> Some (earlier @ later, st2)))"

section \<open>Notions the statements use\<close>

text \<open>
  The test both \<^verbatim>\<open>catch\<close> callbacks of \<^verbatim>\<open>sync\<close> make, taken as false where
  making it throws: \<^verbatim>\<open>err.networkError.response\<close> can be read and is truthy.
\<close>

definition response_test :: "jsval \<Rightarrow> bool" where
  "response_test err =
     (case networkError_response err of Inl e \<Rightarrow> False | Inr response \<Rightarrow> truthy response)"

text \<open>
  The outcomes of a replay on which the callbacks of \<^verbatim>\<open>sync\<close> delete the attempt:
  the promise resolved, or it was rejected with an error that passes the test.
\<close>

fun deletes :: "jsval promise \<Rightarrow> bool" where
  "deletes (Resolved v) = True"
| "deletes (Rejected err) = response_test err"

text \<open>The outcomes of a replay on which the \<^verbatim>\<open>catch\<close> callback throws.\<close>

fun throws :: "jsval promise \<Rightarrow> bool" where
  "throws (Resolved v) = False"
| "throws (Rejected err) = (case networkError_response err of Inl e \<Rightarrow> True | Inr response \<Rightarrow> False)"

text \<open>
  The terminal failure of the specification: the server was reached and returned a
  structured error. The error a mutation is rejected with tells so in two ways: it
  lists the GraphQL errors the server returned (the rejection the comments in \<^verbatim>\<open>sync\<close>
  speak of), or its network error carries the server's response.
\<close>

definition lists_graphQLErrors :: "jsval \<Rightarrow> bool" where
  "lists_graphQLErrors err =
     (case js_get err ''graphQLErrors'' of
        Inr (JArr (e # es)) \<Rightarrow> True
      | _ \<Rightarrow> False)"

definition terminal_failure :: "jsval \<Rightarrow> bool" where
  "terminal_failure err = (lists_graphQLErrors err \<or> response_test err)"

text \<open>What holds of every Map: it has each key once, and \<^verbatim>\<open>-0\<close> is never a key.\<close>

definition Map_ok :: "jsmap \<Rightarrow> bool" where
  "Map_ok m = (distinct (map fst m) \<and> JNegZero \<notin> fst ` set m)"

text \<open>The options of the mutations sent, in the order of the trace.\<close>

fun mutations :: "event list \<Rightarrow> jsval list" where
  "mutations [] = []"
| "mutations (Mutate options # es) = options # mutations es"
| "mutations (e # es) = mutations es"

text \<open>
  A JSON value: built from \<^verbatim>\<open>null\<close>, booleans, strings and finite numbers other than
  \<^verbatim>\<open>-0\<close> with arrays and plain objects.
\<close>

fun representable :: "jsval \<Rightarrow> bool"
  and representable_elems :: "jsval list \<Rightarrow> bool"
  and representable_props :: "(string \<times> jsval) list \<Rightarrow> bool" where
  "representable JNull = True"
| "representable (JBool b) = True"
| "representable (JNum n) = True"
| "representable (JStr s) = True"
| "representable (JArr xs) = representable_elems xs"
| "representable (JObj ps) = representable_props ps"
| "representable v = False"
| "representable_elems [] = True"
| "representable_elems (x # xs) = (representable x \<and> representable_elems xs)"
| "representable_props [] = True"
| "representable_props ((k, v) # ps) = (representable v \<and> representable_props ps)"

text \<open>What \<^verbatim>\<open>JSON.stringify\<close> writes for an element of an array.\<close>

definition as_element :: "jsval \<Rightarrow> jsval" where
  "as_element v = (case to_json v of None \<Rightarrow> JNull | Some y \<Rightarrow> y)"

text \<open>The storage holds the serialisation of the queue as it is now.\<close>

definition persisted :: "link_state \<Rightarrow> bool" where
  "persisted st =
     (storage st ''@offlineLink'' = JSON_stringify (JArr (spread_Map (queue st))))"

section \<open>Example links\<close>

text \<open>
  A link in concurrent mode and one in sequential mode, both with a retry interval of
  one second, an empty queue and an empty storage; a storage holding text that does not
  parse; two mutations with an optimistic response.
\<close>

definition link0 :: link_state where
  "link0 = \<lparr>provider = Asynchronous, storage = Map.empty, sequential = False, queue = [], delayedSync = debounce 1000,
            syncStatus = None, trace = []\<rparr>"

definition link1 :: link_state where
  "link1 = link0\<lparr>sequential := True\<rparr>"

definition corrupt0 :: link_state where
  "corrupt0 = link0\<lparr>storage := [''@offlineLink'' \<mapsto> Malformed]\<rparr>"

text \<open>The same two links over \<^verbatim>\<open>window.localStorage\<close>.\<close>

definition local0 :: link_state where
  "local0 = link0\<lparr>provider := Synchronous\<rparr>"

definition local_corrupt0 :: link_state where
  "local_corrupt0 = corrupt0\<lparr>provider := Synchronous\<rparr>"

definition write1 :: operation where
  "write1 = \<lparr>query = JStr ''mutation W1'', variables = JObj [(''n'', JNum 1)],
             getContext = [(''optimisticResponse'', JObj [(''ok'', JBool True)])]\<rparr>"

definition write2 :: operation where
  "write2 = \<lparr>query = JStr ''mutation W2'', variables = JObj [(''n'', JNum 2)],
             getContext = [(''optimisticResponse'', JObj [(''ok'', JBool True)])]\<rparr>"

text \<open>A write whose variables have a property that is \<^verbatim>\<open>undefined\<close>.\<close>

definition write3 :: operation where
  "write3 = \<lparr>query = JStr ''mutation W3'', variables = JObj [(''note'', JUndefined)],
             getContext = [(''optimisticResponse'', JObj [(''ok'', JBool True)])]\<rparr>"

text \<open>
  Errors a replay can be rejected with: no connection (a network error without a
  response), a request the server answered with an error status, and GraphQL errors
  without any network error. And the link after the two writes were intercepted.
\<close>

definition offline :: jsval where
  "offline = JObj [(''networkError'', JObj [(''message'', JStr ''Failed to fetch'')])]"

definition rejected_by_server :: jsval where
  "rejected_by_server =
     JObj [(''networkError'', JObj [(''statusCode'', JNum 400), (''response'', JObj [(''status'', JNum 400)])])]"

definition graphql_errors :: jsval where
  "graphql_errors = JObj [(''graphQLErrors'', JArr [JObj [(''message'', JStr ''denied'')]]), (''networkError'', JNull)]"

text \<open>
  A network that rejects the replay of the first attempt with the GraphQL errors and
  accepts every other replay.
\<close>

definition rejects_first :: "jsval \<Rightarrow> jsval promise" where
  "rejects_first k = (if k = JStr ''a1'' then Rejected graphql_errors else Resolved JNull)"

definition queued2 :: "link_state \<Rightarrow> link_state" where
  "queued2 st = snd (request (snd (request st write1 ''a1'')) write2 ''a2'')"

definition item1 :: jsval where
  "item1 = JObj [(''mutation'', JStr ''mutation W1''), (''variables'', JObj [(''n'', JNum 1)]),
                 (''optimisticResponse'', JObj [(''ok'', JBool True)])]"

definition item2 :: jsval where
  "item2 = JObj [(''mutation'', JStr ''mutation W2''), (''variables'', JObj [(''n'', JNum 2)]),
                 (''optimisticResponse'', JObj [(''ok'', JBool True)])]"

text \<open>
  The sequential link in the middle of a cycle: the status was published, the first
  attempt was replayed and deleted, the second is yet to come.
\<close>

definition mid_sync :: link_state where
  "mid_sync =
     snd (replay_sequential
            (emit (updateStatus (queued2 link1) True) (Mutate (replay_options item1)))
            (JStr ''a1'') (Resolved JNull))"

section \<open>Facts about the Map, the queue and the debounced function\<close>

lemma Map_key_id: "k \<noteq> JNegZero \<Longrightarrow> Map_key k = k"
  by (simp add: Map_key_def)

lemma Map_key_JStr [simp]: "Map_key (JStr s) = JStr s"
  by (simp add: Map_key_def)

lemma Map_key_not_JNegZero: "Map_key k \<noteq> JNegZero"
  by (simp add: Map_key_def)

lemma Map_set_fresh: "\<not> Map_has m k \<Longrightarrow> Map_set m k v = m @ [(Map_key k, v)]"
  by (simp add: Map_set_def)

lemma keys_Map_set:
  "map fst (Map_set m k v) = (if Map_has m k then map fst m else map fst m @ [Map_key k])"
  by (simp add: Map_set_def comp_def if_distrib [of fst] cong: if_cong)

lemma Map_has_keys: "Map_has m k = (Map_key k \<in> set (map fst m))"
  by (simp add: Map_has_def)

lemma Map_has_Map_set: "Map_has (Map_set m k v) k"
  unfolding Map_has_keys keys_Map_set by (simp add: Map_has_def)

lemma Map_ok_Cons: "Map_ok (e # m) \<Longrightarrow> Map_ok m"
  by (simp add: Map_ok_def)

lemma Map_delete_head:
  "Map_ok ((k, a) # rest) \<Longrightarrow> Map_delete ((k, a) # rest) k = rest"
  by (auto simp: Map_ok_def Map_delete_def Map_key_def filter_id_conv image_iff)

lemma syncStatus_saveQueue:
  "syncStatus (saveQueue st) = Some (Map_size (queue st), False)"
  by (simp add: saveQueue_def updateStatus_def setItem_def emit_def)

lemma queue_saveQueue: "queue (saveQueue st) = queue st"
  by (simp add: saveQueue_def updateStatus_def setItem_def emit_def)

lemma storage_saveQueue:
  "storage (saveQueue st) ''@offlineLink'' = JSON_stringify (JArr (spread_Map (queue st)))"
  by (simp add: saveQueue_def updateStatus_def setItem_def emit_def JSON_stringify_def)

lemma trace_saveQueue:
  "trace (saveQueue st) = trace st @
     [SetItem ''@offlineLink'' (JsonText (JArr (to_json_elems (spread_Map (queue st))))),
      WriteQuery (Map_size (queue st)) False]"
  by (simp add: saveQueue_def updateStatus_def setItem_def emit_def JSON_stringify_def)

lemma saveQueue_frame:
  "provider (saveQueue st) = provider st
   \<and> sequential (saveQueue st) = sequential st
   \<and> delayedSync (saveQueue st) = delayedSync st"
  by (simp add: saveQueue_def updateStatus_def setItem_def emit_def)

lemma persisted_saveQueue: "persisted (saveQueue st)"
  by (simp add: persisted_def storage_saveQueue queue_saveQueue)

lemma persisted_emit: "persisted (emit st e) = persisted st"
  by (simp add: persisted_def emit_def)

lemma mutations_append: "mutations (xs @ ys) = mutations xs @ mutations ys"
  by (induction xs rule: mutations.induct) auto

lemma updateStatus_frame:
  "queue (updateStatus st b) = queue st
   \<and> storage (updateStatus st b) = storage st
   \<and> sequential (updateStatus st b) = sequential st
   \<and> provider (updateStatus st b) = provider st
   \<and> delayedSync (updateStatus st b) = delayedSync st
   \<and> mutations (trace (updateStatus st b)) = mutations (trace st)"
  by (simp add: updateStatus_def emit_def mutations_append)

lemma debounced_call_scheduled:
  "timerId (debounced_call d t) \<noteq> None \<and> lastArgs (debounced_call d t)
   \<and> lastCallTime (debounced_call d t) = Some t"
  by (simp add: debounced_call_def leadingEdge_def Let_def)

section \<open>Facts about the examples\<close>

lemma queue_queued2:
  "queue st = [] \<Longrightarrow> queue (queued2 st) = [(JStr ''a1'', item1), (JStr ''a2'', item2)]"
  by (simp add: queued2_def request_def add_def Let_def emit_def queue_saveQueue write1_def
      write2_def get_prop_def Map_set_def Map_has_def item1_def item2_def)

lemma sequential_queued2: "sequential (queued2 st) = sequential st"
  by (simp add: queued2_def request_def add_def Let_def emit_def write1_def
      write2_def get_prop_def saveQueue_def updateStatus_def setItem_def)

lemma response_test_examples:
  "\<not> response_test offline" "response_test rejected_by_server" "\<not> response_test graphql_errors"
  by (simp_all add: response_test_def networkError_response_def get_prop_def offline_def
      rejected_by_server_def graphql_errors_def)

lemma terminal_failure_examples:
  "\<not> terminal_failure offline" "terminal_failure rejected_by_server"
  "terminal_failure graphql_errors"
  by (simp_all add: terminal_failure_def lists_graphQLErrors_def response_test_def
      networkError_response_def get_prop_def offline_def rejected_by_server_def
      graphql_errors_def)

lemma networkError_response_graphql_errors:
  "networkError_response graphql_errors = Inl TypeError"
  by (simp add: networkError_response_def get_prop_def graphql_errors_def)

lemma persisted_request:
  "truthy (get_prop (getContext operation) ''optimisticResponse'') \<Longrightarrow>
   persisted (snd (request st operation uuid))"
  by (simp add: request_def add_def Let_def persisted_emit persisted_saveQueue)

lemma persisted_queued2: "persisted (queued2 st)"
  unfolding queued2_def
  by (rule persisted_request) (simp add: write2_def get_prop_def)

lemma frame_request:
  "delayedSync (snd (request st operation uuid)) = delayedSync st
   \<and> sequential (snd (request st operation uuid)) = sequential st
   \<and> provider (snd (request st operation uuid)) = provider st
   \<and> mutations (trace (snd (request st operation uuid))) = mutations (trace st)"
  by (simp add: request_def add_def Let_def emit_def saveQueue_frame trace_saveQueue
      mutations_append)

lemma frame_queued2:
  "delayedSync (queued2 st) = delayedSync st
   \<and> provider (queued2 st) = provider st
   \<and> mutations (trace (queued2 st)) = mutations (trace st)"
  by (simp add: queued2_def frame_request)

lemma Map_ok_two: "Map_ok [(JStr ''a1'', item1), (JStr ''a2'', item2)]"
  by (simp add: Map_ok_def)

section \<open>The timeouts of the debounced function\<close>

lemma run_timers_idle: "timerId d = None \<Longrightarrow> run_timers d T = ([], d)"
  by (simp add: run_timers.simps)

lemma run_timers_not_due: "timerId d = Some due \<Longrightarrow> T < due \<Longrightarrow> run_timers d T = ([], d)"
  by (simp add: run_timers.simps)

lemma run_timers_due:
  "timerId d = Some due \<Longrightarrow> due \<le> T \<Longrightarrow>
   run_timers d T =
     (let r = timerExpired d due; r' = run_timers (snd r) T
      in ((if fst r then [due] else []) @ fst r', snd r'))"
  by (subst run_timers.simps) (simp add: Let_def case_prod_beta)

lemma waiting_call_first:
  "timerId d = None \<Longrightarrow> waiting (wait d) (debounced_call d t) t"
  by (simp add: waiting_def debounced_call_def leadingEdge_def Let_def)

lemma run_timers_waiting_early:
  assumes "waiting w d t" and "T < t + w"
  shows "fst (run_timers d T) = []"
    and "waiting w (snd (run_timers d T)) t"
    and "\<exists>due. timerId (snd (run_timers d T)) = Some due \<and> T < due"
proof -
  from assms(1) obtain due where due: "timerId d = Some due" "t \<le> due" "due \<le> t + w"
    and d: "wait d = w" "lastCallTime d = Some t" "lastArgs d"
    by (auto simp: waiting_def split: option.splits)
  have "fst (run_timers d T) = [] \<and> waiting w (snd (run_timers d T)) t
      \<and> (\<exists>due. timerId (snd (run_timers d T)) = Some due \<and> T < due)"
  proof (cases "T < due")
    case True
    then show ?thesis
      using due assms(1) by (simp add: run_timers_not_due)
  next
    case False
    then have le: "due \<le> T" by simp
    with assms(2) have lt: "due < t + w" by simp
    have no: "\<not> shouldInvoke d due"
      using lt due(2) d by (simp add: shouldInvoke_def)
    let ?d1 = "d\<lparr>timerId := Some (t + w)\<rparr>"
    have exp: "timerExpired d due = (False, ?d1)"
      using no d due lt by (simp add: timerExpired_def remainingWait_def)
    have rest: "run_timers ?d1 T = ([], ?d1)"
      using assms(2) by (simp add: run_timers_not_due)
    have "run_timers d T = ([], ?d1)"
      using run_timers_due [OF due(1) le] by (simp add: exp rest Let_def)
    then show ?thesis
      using d assms(2) by (simp add: waiting_def)
  qed
  then show "fst (run_timers d T) = []"
    and "waiting w (snd (run_timers d T)) t"
    and "\<exists>due. timerId (snd (run_timers d T)) = Some due \<and> T < due"
    by simp_all
qed

lemma waiting_call_again:
  assumes "waiting w d t" and "timerId d = Some due" and "t' < due" and "t \<le> t'"
  shows "waiting w (debounced_call d t') t'"
  using assms by (auto simp: waiting_def debounced_call_def Let_def)

lemma run_timers_waiting_late:
  assumes "waiting w d t" and "t + w \<le> T"
  shows "fst (run_timers d T) = [t + w]"
proof -
  from assms(1) obtain due where due: "timerId d = Some due" "t \<le> due" "due \<le> t + w"
    and d: "wait d = w" "lastCallTime d = Some t" "lastArgs d"
    by (auto simp: waiting_def split: option.splits)
  have fire: "fst (run_timers d' T) = [t + w]"
    if "timerId d' = Some (t + w)" "wait d' = w" "lastCallTime d' = Some t" "lastArgs d'" for d'
  proof -
    have yes: "shouldInvoke d' (t + w)"
      using that by (simp add: shouldInvoke_def)
    have exp: "timerExpired d' (t + w) = (True, d'\<lparr>timerId := None, lastArgs := False\<rparr>)"
      using yes that by (simp add: timerExpired_def trailingEdge_def)
    show ?thesis
      using run_timers_due [OF that(1) assms(2)]
      by (simp add: exp Let_def run_timers_idle)
  qed
  show ?thesis
  proof (cases "due = t + w")
    case True
    then show ?thesis using fire [of d] due d by simp
  next
    case False
    then have lt: "due < t + w" using due(3) by simp
    then have le: "due \<le> T" using assms(2) by simp
    have no: "\<not> shouldInvoke d due"
      using lt due(2) d by (simp add: shouldInvoke_def)
    let ?d1 = "d\<lparr>timerId := Some (t + w)\<rparr>"
    have exp: "timerExpired d due = (False, ?d1)"
      using no d due lt by (simp add: timerExpired_def remainingWait_def)
    have "fst (run_timers ?d1 T) = [t + w]"
      by (rule fire) (simp_all add: d)
    then show ?thesis
      using run_timers_due [OF due(1) le] by (simp add: exp Let_def)
  qed
qed

lemma scheduled_runs_once:
  assumes "timerId d = None" and "t + wait d \<le> T"
  shows "fst (run_timers (debounced_call d t) T) = [t + wait d]"
  using waiting_call_first [OF assms(1)] assms(2) by (rule run_timers_waiting_late)

lemma wait_debounced_call: "wait (debounced_call d t) = wait d"
  by (simp add: debounced_call_def leadingEdge_def Let_def)

lemma wait_timerExpired: "wait (snd (timerExpired d t)) = wait d"
  by (simp add: timerExpired_def trailingEdge_def)

text \<open>
  A timeout that comes before the wait after the last call is over sets itself again,
  for the end of that wait; the timeout that comes at the end of it invokes.
\<close>

lemma timerExpired_early:
  assumes "waiting w d t" and "timerId d = Some due" and "due < t + w"
  shows "timerExpired d due = (False, d\<lparr>timerId := Some (t + w)\<rparr>)"
  using assms
  by (auto simp: waiting_def timerExpired_def shouldInvoke_def remainingWait_def)

lemma timerExpired_late:
  assumes "wait d = w" and "lastCallTime d = Some t" and "lastArgs d"
  shows "timerExpired d (t + w) = (True, d\<lparr>timerId := None, lastArgs := False\<rparr>)"
  using assms by (simp add: timerExpired_def shouldInvoke_def trailingEdge_def)

section \<open>Interception of a write\<close>

lemma request_passthrough:
  "\<not> truthy (get_prop (getContext operation) ''optimisticResponse'') \<Longrightarrow>
   request st operation uuid = (None, st\<lparr>trace := trace st @ [Forward operation]\<rparr>)"
  by (simp add: request_def emit_def)

text \<open>
  C2: an intercepted write with an optimistic response, given a fresh id, appends exactly
  one attempt to the queue and persists the queue with it before the operation is
  forwarded: the trace of the call is the write of the storage, the write of the status,
  and then the forward, and when the call returns (no outcome of the network is known
  yet) the queue and the storage hold the new entry.
\<close>

theorem request_enqueues_before_forward:
  assumes "truthy (get_prop (getContext operation) ''optimisticResponse'')"
    and "\<not> Map_has (queue st) (JStr uuid)"
  shows "fst (request st operation uuid) = Some (JStr uuid)
    \<and> queue (snd (request st operation uuid)) =
        queue st @ [(JStr uuid,
                     JObj [(''mutation'', query operation),
                           (''variables'', variables operation),
                           (''optimisticResponse'', get_prop (getContext operation) ''optimisticResponse'')])]
    \<and> Map_size (queue (snd (request st operation uuid))) = Suc (Map_size (queue st))
    \<and> storage (snd (request st operation uuid)) ''@offlineLink'' =
        JSON_stringify (JArr (spread_Map (queue (snd (request st operation uuid)))))
    \<and> trace (snd (request st operation uuid)) =
        trace st @
        [SetItem ''@offlineLink''
           (JsonText (JArr (to_json_elems (spread_Map (queue (snd (request st operation uuid))))))),
         WriteQuery (Suc (Map_size (queue st))) False,
         Forward operation]"
  using assms
  by (simp add: request_def add_def Let_def emit_def queue_saveQueue storage_saveQueue
      trace_saveQueue Map_set_fresh Map_size_def)

theorem request_enqueues_before_forward_witness:
  "truthy (get_prop (getContext write1) ''optimisticResponse'')
   \<and> \<not> Map_has (queue link0) (JStr ''a1'')
   \<and> fst (request link0 write1 ''a1'') = Some (JStr ''a1'')
   \<and> Map_size (queue (snd (request link0 write1 ''a1''))) = 1
   \<and> last (trace (snd (request link0 write1 ''a1''))) = Forward write1"
proof -
  have h1: "truthy (get_prop (getContext write1) ''optimisticResponse'')"
    by (simp add: write1_def get_prop_def)
  have h2: "\<not> Map_has (queue link0) (JStr ''a1'')"
    by (simp add: link0_def Map_has_def)
  from request_enqueues_before_forward [OF h1 h2] h1 h2 show ?thesis
    by (simp add: link0_def Map_size_def)
qed

text \<open>
  C3: when the forwarded call of an intercepted write with an optimistic response fails,
  the error callback calls the debounced \<^verbatim>\<open>delayedSync\<close> (a timeout is pending and
  the call is recorded at \<open>now\<close>; if no timeout was pending before and no other call
  follows, \<^verbatim>\<open>sync\<close> is invoked once, a retry interval later), delivers the optimistic
  response to the caller and then completion, delivers no error, and leaves the queue,
  with the attempt in it, and the storage as they were.
\<close>

theorem request_error_delivers_optimistic:
  assumes "truthy (get_prop (getContext operation) ''optimisticResponse'')"
    and "request st operation uuid = (Some attemptId, st1)"
    and "st2 = request_error st1 operation now networkError"
  shows "timerId (delayedSync st2) \<noteq> None
    \<and> lastArgs (delayedSync st2)
    \<and> lastCallTime (delayedSync st2) = Some now
    \<and> trace st2 = trace st1 @
        [ObserverNext (JObj [(''data'', get_prop (getContext operation) ''optimisticResponse''),
                             (''dataPresent'', JBool True),
                             (''errors'', JArr [])]),
         ObserverComplete]
    \<and> (\<forall>x. ObserverError x \<notin> set (drop (length (trace st)) (trace st2)))
    \<and> queue st2 = queue st1
    \<and> Map_has (queue st2) attemptId
    \<and> storage st2 = storage st1
    \<and> queue (request_error s operation now networkError) = queue s
    \<and> trace (request_error s operation now networkError) = trace s @
        [ObserverNext (JObj [(''data'', get_prop (getContext operation) ''optimisticResponse''),
                             (''dataPresent'', JBool True),
                             (''errors'', JArr [])]),
         ObserverComplete]
    \<and> (timerId (delayedSync st1) = None \<and> now + wait (delayedSync st1) \<le> T \<longrightarrow>
          fst (run_timers (delayedSync st2) T) = [now + wait (delayedSync st1)])"
proof -
  let ?opt = "get_prop (getContext operation) ''optimisticResponse''"
  let ?item = "JObj [(''mutation'', query operation), (''variables'', variables operation),
                     (''optimisticResponse'', ?opt)]"
  let ?st0 = "saveQueue (st\<lparr>queue := Map_set (queue st) (JStr uuid) ?item\<rparr>)"
  from assms(1,2) have id: "attemptId = JStr uuid" and st1: "st1 = emit ?st0 (Forward operation)"
    by (auto simp: request_def add_def Let_def)
  have q1: "queue st1 = Map_set (queue st) (JStr uuid) ?item"
    by (simp add: st1 emit_def queue_saveQueue)
  have t1: "trace st1 = trace st @
      [SetItem ''@offlineLink'' (JsonText (JArr (to_json_elems (spread_Map (queue st1))))),
       WriteQuery (Map_size (queue st1)) False, Forward operation]"
    by (simp add: st1 emit_def trace_saveQueue queue_saveQueue)
  have t2: "trace st2 = trace st1 @
      [ObserverNext (JObj [(''data'', ?opt), (''dataPresent'', JBool True), (''errors'', JArr [])]),
       ObserverComplete]"
    by (simp add: assms(3) request_error_def call_delayedSync_def emit_def Let_def)
  have d2: "delayedSync st2 = debounced_call (delayedSync st1) now"
    by (simp add: assms(3) request_error_def call_delayedSync_def emit_def Let_def)
  have q2: "queue st2 = queue st1" and s2: "storage st2 = storage st1"
    by (simp_all add: assms(3) request_error_def call_delayedSync_def emit_def Let_def)
  have "drop (length (trace st)) (trace st2) =
      [SetItem ''@offlineLink'' (JsonText (JArr (to_json_elems (spread_Map (queue st1))))),
       WriteQuery (Map_size (queue st1)) False, Forward operation,
       ObserverNext (JObj [(''data'', ?opt), (''dataPresent'', JBool True), (''errors'', JArr [])]),
       ObserverComplete]"
    by (simp add: t2 t1)
  then have noerr: "\<forall>x. ObserverError x \<notin> set (drop (length (trace st)) (trace st2))"
    by simp
  have has: "Map_has (queue st2) attemptId"
    by (simp add: q2 q1 id Map_has_Map_set)
  have any: "queue (request_error s operation now networkError) = queue s
      \<and> trace (request_error s operation now networkError) = trace s @
        [ObserverNext (JObj [(''data'', ?opt), (''dataPresent'', JBool True), (''errors'', JArr [])]),
         ObserverComplete]"
    by (simp add: request_error_def call_delayedSync_def emit_def Let_def)
  have once: "fst (run_timers (delayedSync st2) T) = [now + wait (delayedSync st1)]"
    if "timerId (delayedSync st1) = None" and "now + wait (delayedSync st1) \<le> T"
    unfolding d2 using that by (rule scheduled_runs_once)
  show ?thesis
    using t2 noerr q2 has s2 any once by (simp add: d2 debounced_call_scheduled)
qed

theorem request_error_delivers_optimistic_witness:
  "truthy (get_prop (getContext write1) ''optimisticResponse'')
   \<and> request link0 write1 ''a1'' = (Some (JStr ''a1''), snd (request link0 write1 ''a1''))
   \<and> timerId (delayedSync (request_error (snd (request link0 write1 ''a1'')) write1 7 JNull)) = Some 1007
   \<and> Map_size (queue (request_error (snd (request link0 write1 ''a1'')) write1 7 JNull)) = 1
   \<and> timerId (delayedSync (snd (request link0 write1 ''a1''))) = None
   \<and> fst (run_timers
            (delayedSync (request_error (snd (request link0 write1 ''a1'')) write1 7 JNull)) 5000)
       = [1007]"
proof -
  have h1: "truthy (get_prop (getContext write1) ''optimisticResponse'')"
    by (simp add: write1_def get_prop_def)
  have h2: "request link0 write1 ''a1'' = (Some (JStr ''a1''), snd (request link0 write1 ''a1''))"
    using h1 by (simp add: request_def add_def Let_def)
  from request_error_delivers_optimistic [OF h1 h2 refl, of 7 JNull link0 5000] h1 h2 show ?thesis
    by (simp add: request_def add_def Let_def request_error_def call_delayedSync_def emit_def
        queue_saveQueue link0_def Map_set_def Map_has_def Map_size_def saveQueue_def
        updateStatus_def setItem_def debounced_call_def debounce_def shouldInvoke_def leadingEdge_def)
qed

section \<open>The guard of sync\<close>

text \<open>
  C8: when the queue is empty, \<^verbatim>\<open>sync\<close> returns at once and leaves the link as it
  was: the queue, the storage, the published status and the trace (so no status was
  written and no mutation was sent) are unchanged.
\<close>

theorem sync_empty_queue:
  "Map_size (queue st) = 0 \<Longrightarrow> sync st net choices now = (None, st)"
  by (simp add: sync_def)

theorem sync_empty_queue_witness:
  "Map_size (queue link0) = 0 \<and> sync link0 (\<lambda>k. Rejected JNull) [] 5 = (None, link0)"
proof -
  have h: "Map_size (queue link0) = 0"
    by (simp add: link0_def Map_size_def)
  from sync_empty_queue [OF h] h show ?thesis by simp
qed

section \<open>The sequential pass\<close>

lemma queue_replay_sequential:
  "queue (snd (replay_sequential st k r)) =
     (if deletes r then Map_delete (queue st) k else queue st)"
  by (cases r)
     (auto simp: replay_sequential_def queue_delete_def response_test_def split: sum.splits)

lemma continue_replay_sequential:
  "(fst (replay_sequential st k r) = Inr True) = deletes r"
  by (cases r)
     (auto simp: replay_sequential_def queue_delete_def response_test_def split: sum.splits)

lemma frame_replay_sequential:
  "storage (snd (replay_sequential st k r)) = storage st
   \<and> trace (snd (replay_sequential st k r)) = trace st
   \<and> syncStatus (snd (replay_sequential st k r)) = syncStatus st
   \<and> delayedSync (snd (replay_sequential st k r)) = delayedSync st
   \<and> sequential (snd (replay_sequential st k r)) = sequential st
   \<and> provider (snd (replay_sequential st k r)) = provider st"
  by (cases r)
     (auto simp: replay_sequential_def queue_delete_def split: sum.splits)

lemma sync_sequential_Cons:
  "sync_sequential st ((k, a) # attempts) net =
     (let r = replay_sequential (emit st (Mutate (replay_options a))) k (net k)
      in if deletes (net k) then sync_sequential (snd r) attempts net
         else (case fst r of Inl e \<Rightarrow> Some e | Inr b \<Rightarrow> None, snd r))"
  by (cases "net k")
     (auto simp: replay_sequential_def response_test_def Let_def split: sum.splits)

declare sync_sequential.simps(2) [simp del]

lemma queue_sync_sequential:
  "queue st = attempts \<Longrightarrow> Map_ok attempts \<Longrightarrow>
   queue (snd (sync_sequential st attempts net)) = dropWhile (\<lambda>e. deletes (net (fst e))) attempts"
proof (induction attempts arbitrary: st)
  case Nil
  then show ?case by simp
next
  case (Cons p attempts)
  obtain k a where p: "p = (k, a)" by (cases p)
  let ?st1 = "emit st (Mutate (replay_options a))"
  let ?r = "replay_sequential ?st1 k (net k)"
  have q1: "queue ?st1 = (k, a) # attempts"
    using Cons.prems(1) by (simp add: emit_def p)
  show ?case
  proof (cases "deletes (net k)")
    case True
    have "queue (snd ?r) = attempts"
      using True Cons.prems(2) q1 by (simp add: queue_replay_sequential Map_delete_head p)
    moreover have "Map_ok attempts" using Cons.prems(2) by (rule Map_ok_Cons)
    ultimately have "queue (snd (sync_sequential (snd ?r) attempts net))
        = dropWhile (\<lambda>e. deletes (net (fst e))) attempts"
      by (rule Cons.IH)
    then show ?thesis
      using True by (simp add: p sync_sequential_Cons Let_def)
  next
    case False
    have "queue (snd ?r) = (k, a) # attempts"
      using False q1 by (simp add: queue_replay_sequential)
    then show ?thesis
      using False by (simp add: p sync_sequential_Cons Let_def)
  qed
qed

lemma frame_sync_sequential:
  "storage (snd (sync_sequential st attempts net)) = storage st
   \<and> syncStatus (snd (sync_sequential st attempts net)) = syncStatus st
   \<and> delayedSync (snd (sync_sequential st attempts net)) = delayedSync st
   \<and> sequential (snd (sync_sequential st attempts net)) = sequential st
   \<and> provider (snd (sync_sequential st attempts net)) = provider st"
proof (induction attempts arbitrary: st)
  case Nil
  then show ?case by simp
next
  case (Cons p attempts)
  obtain k a where p: "p = (k, a)" by (cases p)
  show ?case
    by (simp add: p sync_sequential_Cons Let_def Cons.IH frame_replay_sequential emit_def)
qed

lemma mutations_sync_sequential:
  "mutations (trace (snd (sync_sequential st attempts net))) =
     mutations (trace st) @
     map (\<lambda>e. replay_options (snd e))
       (takeWhile (\<lambda>e. deletes (net (fst e))) attempts
        @ take 1 (dropWhile (\<lambda>e. deletes (net (fst e))) attempts))"
proof (induction attempts arbitrary: st)
  case Nil
  then show ?case by simp
next
  case (Cons p attempts)
  obtain k a where p: "p = (k, a)" by (cases p)
  show ?case
    by (simp add: p sync_sequential_Cons Let_def Cons.IH frame_replay_sequential emit_def
        mutations_append)
qed

lemma fst_sync_sequential_settled:
  "\<forall>e \<in> set attempts. deletes (net (fst e)) \<Longrightarrow> fst (sync_sequential st attempts net) = None"
proof (induction attempts arbitrary: st)
  case Nil
  then show ?case by simp
next
  case (Cons p attempts)
  obtain k a where p: "p = (k, a)" by (cases p)
  from Cons show ?case
    by (simp add: p sync_sequential_Cons Let_def)
qed

section \<open>The concurrent pass\<close>

lemma queue_replay_concurrent:
  "queue (snd (replay_concurrent st k r)) =
     (if deletes r then Map_delete (queue st) k else queue st)"
  by (cases r)
     (auto simp: replay_concurrent_def queue_delete_def response_test_def split: sum.splits)

lemma frame_replay_concurrent:
  "storage (snd (replay_concurrent st k r)) = storage st
   \<and> trace (snd (replay_concurrent st k r)) = trace st
   \<and> syncStatus (snd (replay_concurrent st k r)) = syncStatus st
   \<and> delayedSync (snd (replay_concurrent st k r)) = delayedSync st
   \<and> sequential (snd (replay_concurrent st k r)) = sequential st
   \<and> provider (snd (replay_concurrent st k r)) = provider st"
  by (cases r)
     (auto simp: replay_concurrent_def queue_delete_def split: sum.splits)

lemma settle_concurrent_Cons:
  "settle_concurrent st (p # ps) choices net =
     (let i = (case choices of [] \<Rightarrow> 0 | c # cs \<Rightarrow> c mod length (p # ps));
          r = replay_concurrent st (fst ((p # ps) ! i)) (net (fst ((p # ps) ! i)));
          r' = settle_concurrent (snd r) (take i (p # ps) @ drop (Suc i) (p # ps)) (tl choices) net
      in (case fst r of None \<Rightarrow> fst r' | Some x \<Rightarrow> Some x, snd r'))"
  by (simp only: settle_concurrent.simps Let_def case_prod_beta)

declare settle_concurrent.simps(2) [simp del]

lemma set_without_nth:
  "i < length xs \<Longrightarrow> set xs = insert (xs ! i) (set (take i xs @ drop (Suc i) xs))"
proof -
  assume "i < length xs"
  then have "xs = take i xs @ xs ! i # drop (Suc i) xs"
    by (rule id_take_nth_drop)
  then have "set xs = set (take i xs @ xs ! i # drop (Suc i) xs)"
    by simp
  then show ?thesis by simp
qed

lemma choice_in_range:
  "(case choices of [] \<Rightarrow> 0 | c # cs \<Rightarrow> c mod length (p # ps)) < length (p # ps)"
  by (simp split: list.splits)

lemma queue_settle_concurrent:
  assumes "JNegZero \<notin> fst ` set pending"
  shows "queue (snd (settle_concurrent st pending choices net)) =
     filter (\<lambda>e. \<not> (fst e \<in> fst ` set pending \<and> deletes (net (fst e)))) (queue st)"
  using assms
proof (induction st pending choices net rule: settle_concurrent.induct)
  case (1 st choices net)
  then show ?case by simp
next
  case (2 st p ps choices net)
  let ?i = "case choices of [] \<Rightarrow> 0 | c # cs \<Rightarrow> c mod length (p # ps)"
  let ?k = "fst ((p # ps) ! ?i)"
  let ?r = "replay_concurrent st ?k (net ?k)"
  let ?rest = "take ?i (p # ps) @ drop (Suc ?i) (p # ps)"
  have "?i < length (p # ps)"
    by (rule choice_in_range)
  then have "set (p # ps) = insert ((p # ps) ! ?i) (set ?rest)"
    by (rule set_without_nth)
  then have "fst ` set (p # ps) = fst ` insert ((p # ps) ! ?i) (set ?rest)"
    by (rule arg_cong)
  then have keys: "fst ` set (p # ps) = insert ?k (fst ` set ?rest)"
    by (simp only: image_insert)
  from "2.prems" have k: "?k \<noteq> JNegZero" and rest: "JNegZero \<notin> fst ` set ?rest"
    unfolding keys by auto
  have IH: "queue (snd (settle_concurrent (snd ?r) ?rest (tl choices) net)) =
      filter (\<lambda>e. \<not> (fst e \<in> fst ` set ?rest \<and> deletes (net (fst e)))) (queue (snd ?r))"
    by (rule "2.IH" [OF refl refl refl prod.collapse refl prod.collapse rest])
  show ?case
    unfolding settle_concurrent_Cons Let_def snd_conv IH queue_replay_concurrent keys
    using k by (auto simp: Map_delete_def Map_key_id intro!: filter_cong)
qed

lemma frame_settle_concurrent:
  "storage (snd (settle_concurrent st pending choices net)) = storage st
   \<and> trace (snd (settle_concurrent st pending choices net)) = trace st
   \<and> syncStatus (snd (settle_concurrent st pending choices net)) = syncStatus st
   \<and> delayedSync (snd (settle_concurrent st pending choices net)) = delayedSync st
   \<and> sequential (snd (settle_concurrent st pending choices net)) = sequential st
   \<and> provider (snd (settle_concurrent st pending choices net)) = provider st"
proof (induction st pending choices net rule: settle_concurrent.induct)
  case (1 st choices net)
  then show ?case by simp
next
  case (2 st p ps choices net)
  note IH = "2.IH" [OF refl refl refl prod.collapse refl prod.collapse]
  show ?case
    unfolding settle_concurrent_Cons Let_def snd_conv
    using IH by (simp add: frame_replay_concurrent)
qed

lemma mutate_all_frame:
  "queue (mutate_all st attempts) = queue st
   \<and> storage (mutate_all st attempts) = storage st
   \<and> syncStatus (mutate_all st attempts) = syncStatus st
   \<and> delayedSync (mutate_all st attempts) = delayedSync st
   \<and> sequential (mutate_all st attempts) = sequential st
   \<and> provider (mutate_all st attempts) = provider st
   \<and> mutations (trace (mutate_all st attempts)) = mutations (trace st) @ map snd attempts"
  by (induction st attempts rule: mutate_all.induct) (simp_all add: emit_def mutations_append)

lemma networkError_response_error: "networkError_response err = Inl e \<Longrightarrow> e = TypeError"
  by (cases err; cases "get_prop (case err of JObj ps \<Rightarrow> ps | JInstance c ps \<Rightarrow> ps | _ \<Rightarrow> []) ''networkError''")
     (auto simp: networkError_response_def)

lemma fst_replay_concurrent:
  "fst (replay_concurrent st k r) = (if throws r then Some TypeError else None)"
  by (cases r)
     (auto simp: replay_concurrent_def split: sum.splits dest: networkError_response_error)

lemma fst_settle_concurrent:
  "fst (settle_concurrent st pending choices net) =
     (if \<exists>e \<in> set pending. throws (net (fst e)) then Some TypeError else None)"
proof (induction st pending choices net rule: settle_concurrent.induct)
  case (1 st choices net)
  then show ?case by simp
next
  case (2 st p ps choices net)
  let ?i = "case choices of [] \<Rightarrow> 0 | c # cs \<Rightarrow> c mod length (p # ps)"
  let ?k = "fst ((p # ps) ! ?i)"
  let ?r = "replay_concurrent st ?k (net ?k)"
  let ?rest = "take ?i (p # ps) @ drop (Suc ?i) (p # ps)"
  have "?i < length (p # ps)"
    by (rule choice_in_range)
  then have split: "set (p # ps) = insert ((p # ps) ! ?i) (set ?rest)"
    by (rule set_without_nth)
  have IH: "fst (settle_concurrent (snd ?r) ?rest (tl choices) net) =
      (if \<exists>e \<in> set ?rest. throws (net (fst e)) then Some TypeError else None)"
    by (rule "2.IH" [OF refl refl refl prod.collapse refl prod.collapse])
  have "(\<exists>e \<in> set (p # ps). throws (net (fst e))) =
      (throws (net ?k) \<or> (\<exists>e \<in> set ?rest. throws (net (fst e))))"
    by (subst split) simp
  then show ?case
    unfolding settle_concurrent_Cons Let_def fst_conv IH fst_replay_concurrent
    by simp
qed

section \<open>A whole cycle\<close>

lemma sync_end_frame:
  "queue (sync_end st now) = queue st
   \<and> storage (sync_end st now) ''@offlineLink'' = JSON_stringify (JArr (spread_Map (queue st)))
   \<and> syncStatus (sync_end st now) = Some (Map_size (queue st), False)
   \<and> mutations (trace (sync_end st now)) = mutations (trace st)
   \<and> provider (sync_end st now) = provider st
   \<and> sequential (sync_end st now) = sequential st"
  by (simp add: sync_end_def Let_def call_delayedSync_def queue_saveQueue storage_saveQueue
      syncStatus_saveQueue trace_saveQueue mutations_append saveQueue_frame)

lemma snd_sync:
  "snd (sync st net choices now) =
     (if Map_size (queue st) < 1 then st
      else let r = (if sequential st
                    then sync_sequential (updateStatus st True) (queue st) net
                    else settle_concurrent (mutate_all (updateStatus st True) (queue st))
                           (queue st) choices net)
           in if fst r = None then sync_end (snd r) now else snd r)"
  by (auto simp: sync_def Let_def updateStatus_frame split: prod.splits option.splits)

lemma queue_sync_seq:
  assumes "sequential st" and "Map_ok (queue st)"
  shows "queue (snd (sync st net choices now)) = dropWhile (\<lambda>e. deletes (net (fst e))) (queue st)"
proof (cases "Map_size (queue st) < 1")
  case True
  then show ?thesis by (simp add: snd_sync Map_size_def)
next
  case False
  have "queue (snd (sync_sequential (updateStatus st True) (queue st) net))
      = dropWhile (\<lambda>e. deletes (net (fst e))) (queue st)"
    using assms(2) by (intro queue_sync_sequential) (simp_all add: updateStatus_frame)
  then show ?thesis
    using False assms(1) by (simp add: snd_sync Let_def sync_end_frame)
qed

lemma queue_sync_conc:
  assumes "\<not> sequential st" and "Map_ok (queue st)"
  shows "queue (snd (sync st net choices now)) = filter (\<lambda>e. \<not> deletes (net (fst e))) (queue st)"
proof (cases "Map_size (queue st) < 1")
  case True
  then show ?thesis by (simp add: snd_sync Map_size_def)
next
  case False
  have "queue (snd (settle_concurrent (mutate_all (updateStatus st True) (queue st))
                        (queue st) choices net))
      = filter (\<lambda>e. \<not> deletes (net (fst e))) (queue st)"
    using assms(2)
    by (simp add: queue_settle_concurrent Map_ok_def mutate_all_frame updateStatus_frame
        cong: filter_cong)
  then show ?thesis
    using False assms(1) by (simp add: snd_sync Let_def sync_end_frame)
qed

lemma fst_sync_None:
  assumes "fst (sync st net choices now) = None" and "1 \<le> Map_size (queue st)"
  shows "\<exists>st2. snd (sync st net choices now) = sync_end st2 now"
  using assms by (auto simp: sync_def Let_def split: prod.splits option.splits if_splits)

lemma persisted_sync_end: "persisted (sync_end st now)"
  by (simp add: persisted_def sync_end_frame)

text \<open>
  What a sequential pass does, told by the test the code makes: the mutations sent are
  those of the leading attempts whose replay resolves or is rejected with an error that
  passes the test, followed by the first attempt for which neither holds, and the
  queue left is the queue from that attempt on.
\<close>

lemma sequential_pass_by_the_test:
  assumes "sequential st" and "Map_ok (queue st)"
  shows "queue (snd (sync st net choices now)) = dropWhile (\<lambda>e. deletes (net (fst e))) (queue st)
    \<and> mutations (trace (snd (sync st net choices now))) =
        mutations (trace st) @
        map (\<lambda>e. replay_options (snd e))
          (takeWhile (\<lambda>e. deletes (net (fst e))) (queue st)
           @ take 1 (dropWhile (\<lambda>e. deletes (net (fst e))) (queue st)))"
proof -
  have "mutations (trace (snd (sync st net choices now))) =
        mutations (trace st) @
        map (\<lambda>e. replay_options (snd e))
          (takeWhile (\<lambda>e. deletes (net (fst e))) (queue st)
           @ take 1 (dropWhile (\<lambda>e. deletes (net (fst e))) (queue st)))"
  proof (cases "Map_size (queue st) < 1")
    case True
    then show ?thesis by (simp add: snd_sync Map_size_def)
  next
    case False
    then show ?thesis
      using assms(1)
      by (simp add: snd_sync Let_def sync_end_frame mutations_sync_sequential updateStatus_frame)
  qed
  with queue_sync_seq [OF assms] show ?thesis by simp
qed

lemma replayed_attempt_sequential:
  assumes "Map_ok q" and "(k, a) \<in> set q"
    and "\<forall>e \<in> set (takeWhile (\<lambda>e. fst e \<noteq> k) q). deletes (net (fst e))"
  shows "Map_has (dropWhile (\<lambda>e. deletes (net (fst e))) q) k = (\<not> deletes (net k))"
    and "\<not> deletes (net k) \<Longrightarrow> (k, a) \<in> set (dropWhile (\<lambda>e. deletes (net (fst e))) q)"
proof -
  from assms(1) have dq: "distinct (map fst q)"
    by (simp add: Map_ok_def)
  from assms(1,2) have kk: "Map_key k = k"
    by (force simp: Map_ok_def intro: Map_key_id)
  let ?P = "\<lambda>e. deletes (net (fst e))"
  let ?pre = "takeWhile (\<lambda>e. fst e \<noteq> k) q"
  let ?post = "dropWhile (\<lambda>e. fst e \<noteq> k) q"
  have split: "q = ?pre @ ?post" by simp
  have "?post \<noteq> []"
    using assms(2) by force
  then obtain p rest where post: "?post = p # rest" by (cases ?post) auto
  then have "fst p = k"
    using hd_dropWhile [of "\<lambda>e. fst e \<noteq> k" q] by auto
  moreover have "p \<in> set q"
    using post set_dropWhileD [of p "\<lambda>e. fst e \<noteq> k" q] by simp
  ultimately have p: "p = (k, a)"
    using dq assms(2) eq_key_imp_eq_value [of q k "snd p" a] by (cases p) auto
  have "distinct (map fst (?pre @ ?post))"
    using dq by simp
  then have fresh: "k \<notin> fst ` set rest"
    by (simp add: post p)
  have drop: "dropWhile ?P q = dropWhile ?P ((k, a) # rest)"
    using assms(3) dropWhile_append2 [of ?pre ?P "(k, a) # rest"] split post p by metis
  show "Map_has (dropWhile ?P q) k = (\<not> deletes (net k))"
  proof (cases "deletes (net k)")
    case True
    then have "set (dropWhile ?P q) \<subseteq> set rest"
      using drop set_dropWhileD [of _ ?P rest] by auto
    then show ?thesis
      using True fresh by (auto simp: Map_has_def kk)
  next
    case False
    then show ?thesis
      using drop by (simp add: Map_has_def kk)
  qed
  show "(k, a) \<in> set (dropWhile ?P q)" if "\<not> deletes (net k)"
    using that drop by simp
qed

text \<open>
  What a pass does to an attempt it replays, told by the test the code makes: the
  attempt is deleted when the replay resolves or is rejected with an error that passes
  the test, and is still in the queue otherwise.
\<close>

lemma membership_by_the_test:
  assumes "Map_ok (queue st)" and "(k, a) \<in> set (queue st)"
    and "sequential st \<longrightarrow>
           (\<forall>e \<in> set (takeWhile (\<lambda>e. fst e \<noteq> k) (queue st)). deletes (net (fst e)))"
  shows "(net k = Resolved v \<longrightarrow> \<not> Map_has (queue (snd (sync st net choices now))) k)
    \<and> (net k = Rejected err \<and> response_test err \<longrightarrow>
          \<not> Map_has (queue (snd (sync st net choices now))) k)
    \<and> (net k = Rejected err \<and> \<not> response_test err \<longrightarrow>
          (k, a) \<in> set (queue (snd (sync st net choices now))))"
proof (cases "sequential st")
  case True
  let ?q' = "dropWhile (\<lambda>e. deletes (net (fst e))) (queue st)"
  have q': "queue (snd (sync st net choices now)) = ?q'"
    using True assms(1) by (rule queue_sync_seq)
  have reached: "\<forall>e \<in> set (takeWhile (\<lambda>e. fst e \<noteq> k) (queue st)). deletes (net (fst e))"
    using True assms(3) by simp
  have "Map_has ?q' k = (\<not> deletes (net k))"
    using assms(1,2) reached by (rule replayed_attempt_sequential(1))
  moreover have "\<not> deletes (net k) \<Longrightarrow> (k, a) \<in> set ?q'"
    using assms(1,2) reached by (rule replayed_attempt_sequential(2))
  ultimately show ?thesis
    unfolding q' by auto
next
  case False
  have q': "queue (snd (sync st net choices now))
      = filter (\<lambda>e. \<not> deletes (net (fst e))) (queue st)"
    using False assms(1) by (rule queue_sync_conc)
  from assms(1,2) have kk: "Map_key k = k"
    by (force simp: Map_ok_def intro: Map_key_id)
  show ?thesis
    unfolding q' using assms(2) by (auto simp: Map_has_def kk)
qed

section \<open>A replay rejected with GraphQL errors\<close>

lemma replay_graphql_errors:
  "replay_sequential st k (Rejected graphql_errors) = (Inl TypeError, st)"
  "replay_concurrent st k (Rejected graphql_errors) = (Some TypeError, st)"
  by (simp_all add: replay_sequential_def replay_concurrent_def
      networkError_response_graphql_errors)

lemma sync_sequential_rejects_first:
  assumes "sequential st" and "queue st = [(JStr ''a1'', item1), (JStr ''a2'', item2)]"
  shows "sync st rejects_first choices now =
    (Some TypeError, emit (updateStatus st True) (Mutate (replay_options item1)))"
  using assms
  by (simp add: sync_def Let_def Map_size_def updateStatus_frame sync_sequential_Cons
      rejects_first_def response_test_examples replay_graphql_errors)

text \<open>
  C4 fails on the code. The first of two attempts is replayed in sequential mode and
  rejected with GraphQL errors and no network error: the server processed the write
  and rejected it, a terminal failure. The \<^verbatim>\<open>catch\<close> callback throws a TypeError
  reading \<^verbatim>\<open>err.networkError.response\<close>: the attempt is not removed, the second
  attempt is not replayed, and \<^verbatim>\<open>sync\<close> ends rejected, with the storage not written,
  the status left in flight and no cycle scheduled.
\<close>

theorem sequential_pass_aborts_on_graphQLErrors:
  "terminal_failure graphql_errors
   \<and> sequential (queued2 link1)
   \<and> queue (queued2 link1) = [(JStr ''a1'', item1), (JStr ''a2'', item2)]
   \<and> rejects_first (JStr ''a1'') = Rejected graphql_errors
   \<and> rejects_first (JStr ''a2'') = Resolved JNull
   \<and> fst (sync (queued2 link1) rejects_first [] 9) = Some TypeError
   \<and> queue (snd (sync (queued2 link1) rejects_first [] 9))
       = [(JStr ''a1'', item1), (JStr ''a2'', item2)]
   \<and> mutations (trace (snd (sync (queued2 link1) rejects_first [] 9))) = [replay_options item1]
   \<and> storage (snd (sync (queued2 link1) rejects_first [] 9)) = storage (queued2 link1)
   \<and> syncStatus (snd (sync (queued2 link1) rejects_first [] 9)) = Some (2, True)
   \<and> timerId (delayedSync (snd (sync (queued2 link1) rejects_first [] 9))) = None"
proof -
  have q: "queue (queued2 link1) = [(JStr ''a1'', item1), (JStr ''a2'', item2)]"
    by (rule queue_queued2) (simp add: link1_def link0_def)
  have s: "sequential (queued2 link1)"
    by (simp add: sequential_queued2 link1_def)
  have r: "sync (queued2 link1) rejects_first [] 9 =
      (Some TypeError, emit (updateStatus (queued2 link1) True) (Mutate (replay_options item1)))"
    using s q by (rule sync_sequential_rejects_first)
  have t: "mutations (trace (queued2 link1)) = []"
    by (simp add: frame_queued2 link1_def link0_def)
  have d: "timerId (delayedSync (queued2 link1)) = None"
    by (simp add: frame_queued2 link1_def link0_def debounce_def)
  show ?thesis
    unfolding r
    using s q t d
    by (simp add: terminal_failure_examples rejects_first_def emit_def updateStatus_def
        Map_size_def mutations_append)
qed

lemma sync_concurrent_rejects_first:
  assumes "\<not> sequential st" and "queue st = [(JStr ''a1'', item1), (JStr ''a2'', item2)]"
  shows "fst (sync st rejects_first choices now) = Some TypeError"
    and "queue (snd (sync st rejects_first choices now)) = [(JStr ''a1'', item1)]"
    and "storage (snd (sync st rejects_first choices now)) = storage st"
    and "syncStatus (snd (sync st rejects_first choices now)) = Some (2, True)"
    and "delayedSync (snd (sync st rejects_first choices now)) = delayedSync st"
proof -
  let ?r = "settle_concurrent (mutate_all (updateStatus st True) (queue st)) (queue st)
              choices rejects_first"
  have f: "fst ?r = Some TypeError"
    by (simp add: fst_settle_concurrent assms(2) rejects_first_def
        networkError_response_graphql_errors)
  have "sync st rejects_first choices now = (Some TypeError, snd ?r)"
    using assms f
    by (auto simp: sync_def Let_def Map_size_def updateStatus_frame split: prod.splits)
  then have r: "fst (sync st rejects_first choices now) = Some TypeError"
    "snd (sync st rejects_first choices now) = snd ?r"
    by simp_all
  show "fst (sync st rejects_first choices now) = Some TypeError"
    by (rule r(1))
  have "Map_ok (queue st)"
    by (simp add: assms(2) Map_ok_two)
  with assms(1) have "queue (snd (sync st rejects_first choices now))
      = filter (\<lambda>e. \<not> deletes (rejects_first (fst e))) (queue st)"
    by (rule queue_sync_conc)
  then show "queue (snd (sync st rejects_first choices now)) = [(JStr ''a1'', item1)]"
    by (simp add: assms(2) rejects_first_def response_test_examples)
  show "storage (snd (sync st rejects_first choices now)) = storage st"
    by (simp add: r(2) frame_settle_concurrent mutate_all_frame updateStatus_frame)
  show "syncStatus (snd (sync st rejects_first choices now)) = Some (2, True)"
    by (simp add: r(2) frame_settle_concurrent mutate_all_frame updateStatus_def emit_def
        assms(2) Map_size_def)
  show "delayedSync (snd (sync st rejects_first choices now)) = delayedSync st"
    by (simp add: r(2) frame_settle_concurrent mutate_all_frame updateStatus_frame)
qed

text \<open>
  C1 fails on the code. A replay rejected with GraphQL errors and no network error is a
  terminal failure: the server processed the write and rejected it. In both modes the
  \<^verbatim>\<open>catch\<close> callback throws a TypeError reading \<^verbatim>\<open>err.networkError.response\<close> and
  leaves the link as it was, so the attempt is not removed. In concurrent mode, in
  whatever order the two replays settle, the attempt is still in the queue when
  \<^verbatim>\<open>sync\<close> ends; \<^verbatim>\<open>sync\<close> ends rejected, with the removal of the other attempt not
  persisted, the status left in flight and no cycle scheduled.
\<close>

theorem graphQLErrors_attempt_not_removed:
  "terminal_failure graphql_errors
   \<and> replay_sequential st k (Rejected graphql_errors) = (Inl TypeError, st)
   \<and> replay_concurrent st k (Rejected graphql_errors) = (Some TypeError, st)
   \<and> \<not> sequential (queued2 link0)
   \<and> queue (queued2 link0) = [(JStr ''a1'', item1), (JStr ''a2'', item2)]
   \<and> rejects_first (JStr ''a1'') = Rejected graphql_errors
   \<and> fst (sync (queued2 link0) rejects_first choices 9) = Some TypeError
   \<and> queue (snd (sync (queued2 link0) rejects_first choices 9)) = [(JStr ''a1'', item1)]
   \<and> Map_has (queue (snd (sync (queued2 link0) rejects_first choices 9))) (JStr ''a1'')
   \<and> storage (snd (sync (queued2 link0) rejects_first choices 9)) = storage (queued2 link0)
   \<and> \<not> persisted (snd (sync (queued2 link0) rejects_first choices 9))
   \<and> syncStatus (snd (sync (queued2 link0) rejects_first choices 9)) = Some (2, True)
   \<and> timerId (delayedSync (snd (sync (queued2 link0) rejects_first choices 9))) = None"
proof -
  have q: "queue (queued2 link0) = [(JStr ''a1'', item1), (JStr ''a2'', item2)]"
    by (rule queue_queued2) (simp add: link0_def)
  have s: "\<not> sequential (queued2 link0)"
    by (simp add: sequential_queued2 link0_def)
  note r = sync_concurrent_rejects_first [OF s q, of choices 9]
  have d: "timerId (delayedSync (queued2 link0)) = None"
    by (simp add: frame_queued2 link0_def debounce_def)
  have p: "persisted (queued2 link0)"
    by (rule persisted_queued2)
  then have st: "storage (queued2 link0) ''@offlineLink'' =
      Some (JsonText (JArr [JArr [JStr ''a1'', item1], JArr [JStr ''a2'', item2]]))"
    by (simp add: persisted_def q JSON_stringify_def spread_Map_def item1_def item2_def)
  have np: "\<not> persisted (snd (sync (queued2 link0) rejects_first choices 9))"
    unfolding persisted_def r st by (simp add: JSON_stringify_def spread_Map_def)
  show ?thesis
    using s q d np
    by (simp add: r terminal_failure_examples replay_graphql_errors rejects_first_def
        Map_has_def)
qed

section \<open>The queue stays a Map\<close>

text \<open>
  A Map holds each key once, and never the key \<^verbatim>\<open>-0\<close>. The statements about a pass
  assume this of the queue the pass starts from; it holds of the empty queue and of a
  hydrated one, and every operation of the link keeps it.
\<close>

lemma Map_ok_Map_set: "Map_ok m \<Longrightarrow> Map_ok (Map_set m k v)"
proof -
  assume ok: "Map_ok m"
  have "fst ` set (Map_set m k v) = set (map fst (Map_set m k v))"
    by simp
  also have "\<dots> = (if Map_has m k then set (map fst m) else insert (Map_key k) (set (map fst m)))"
    by (simp only: keys_Map_set) simp
  finally have keys: "fst ` set (Map_set m k v) \<subseteq> insert (Map_key k) (fst ` set m)"
    by (auto split: if_splits)
  have "distinct (map fst (Map_set m k v))"
    using ok by (simp add: keys_Map_set Map_has_def Map_ok_def)
  moreover have "JNegZero \<notin> fst ` set (Map_set m k v)"
    using ok keys Map_key_not_JNegZero [of k] by (auto simp: Map_ok_def)
  ultimately show ?thesis
    by (simp add: Map_ok_def)
qed

lemma Map_ok_Map_delete: "Map_ok m \<Longrightarrow> Map_ok (Map_delete m k)"
  by (auto simp: Map_ok_def Map_delete_def distinct_map_filter)

lemma Map_ok_add_entries:
  "Map_ok m \<Longrightarrow> add_entries m es = Inr m' \<Longrightarrow> Map_ok m'"
proof (induction es arbitrary: m)
  case Nil
  then show ?case by simp
next
  case (Cons e es)
  then show ?case
    by (auto split: sum.splits dest: Map_ok_Map_set)
qed

lemma Map_ok_new_Map: "new_Map v = Inr m \<Longrightarrow> Map_ok m"
proof (cases v)
  case (JArr es)
  assume "new_Map v = Inr m"
  with JArr have "add_entries [] es = Inr m" by simp
  moreover have "Map_ok []" by (simp add: Map_ok_def)
  ultimately show ?thesis by (rule Map_ok_add_entries [rotated])
qed (auto simp: Map_ok_def split: if_splits)

lemma Map_ok_getQueue_settled: "Map_ok (getQueue_settled r)"
proof (cases r)
  case (Resolved stored)
  show ?thesis
  proof (cases "JSON_parse stored")
    case (Inl e)
    then show ?thesis by (simp add: getQueue_settled_def Resolved Map_ok_def)
  next
    case (Inr v)
    then show ?thesis
      by (cases "new_Map v")
         (simp_all add: getQueue_settled_def Resolved Map_ok_def Map_ok_new_Map [unfolded Map_ok_def])
  qed
next
  case (Rejected err)
  then show ?thesis by (simp add: getQueue_settled_def Map_ok_def)
qed

lemma Map_ok_getQueue: "getQueue st = Inr m \<Longrightarrow> Map_ok m"
  by (auto simp: getQueue_def getItem_def Map_ok_getQueue_settled split: provider.splits)

lemma Map_ok_add:
  "Map_ok (queue st) \<Longrightarrow> Map_ok (queue (snd (add st uuid item)))"
  by (simp add: add_def Let_def queue_saveQueue Map_ok_Map_set)

lemma Map_ok_remove:
  "Map_ok (queue st) \<Longrightarrow> Map_ok (queue (remove st k))"
  by (simp add: remove_def queue_saveQueue Map_ok_Map_delete)

lemma Map_ok_request:
  "Map_ok (queue st) \<Longrightarrow> Map_ok (queue (snd (request st operation uuid)))"
  by (auto simp: request_def Let_def emit_def add_def queue_saveQueue Map_ok_Map_set)

lemma Map_ok_dropWhile: "Map_ok m \<Longrightarrow> Map_ok (dropWhile P m)"
  by (induction m) (auto simp: Map_ok_def)

lemma Map_ok_filter: "Map_ok m \<Longrightarrow> Map_ok (filter P m)"
  by (auto simp: Map_ok_def distinct_map_filter)

lemma Map_ok_sync:
  assumes "Map_ok (queue st)"
  shows "Map_ok (queue (snd (sync st net choices now)))"
proof (cases "sequential st")
  case True
  then show ?thesis
    using assms by (simp add: queue_sync_seq Map_ok_dropWhile)
next
  case False
  then show ?thesis
    using assms by (simp add: queue_sync_conc Map_ok_filter)
qed

section \<open>Persisting and publishing\<close>

text \<open>
  C5, as the code has it: \<^verbatim>\<open>add\<close> and \<^verbatim>\<open>remove\<close> each end with the queue
  persisted. The deletions a pass of \<^verbatim>\<open>sync\<close> makes do not go through \<^verbatim>\<open>remove\<close>:
  neither loop writes the storage, and the queue is persisted once, when a pass that
  threw nothing ends.
\<close>

theorem persist_follows_add_and_remove:
  "persisted (snd (add st uuid item))
   \<and> persisted (remove st k)
   \<and> storage (snd (sync_sequential st attempts net)) = storage st
   \<and> storage (snd (settle_concurrent st attempts choices net)) = storage st
   \<and> (1 \<le> Map_size (queue st) \<and> fst (sync st net choices now) = None \<longrightarrow>
        persisted (snd (sync st net choices now)))"
proof -
  have "persisted (snd (sync st net choices now))"
    if "1 \<le> Map_size (queue st)" and "fst (sync st net choices now) = None"
    using fst_sync_None [OF that(2,1)] persisted_sync_end by auto
  then show ?thesis
    by (simp add: add_def remove_def Let_def persisted_saveQueue frame_sync_sequential
        frame_settle_concurrent)
qed

theorem persist_follows_add_and_remove_witness:
  "1 \<le> Map_size (queue (queued2 link0))
   \<and> fst (sync (queued2 link0) (\<lambda>k. Rejected offline) [] 9) = None
   \<and> persisted (snd (sync (queued2 link0) (\<lambda>k. Rejected offline) [] 9))"
proof -
  have q0: "queue (queued2 link0) = [(JStr ''a1'', item1), (JStr ''a2'', item2)]"
    by (rule queue_queued2) (simp add: link0_def)
  have s0: "\<not> sequential (queued2 link0)"
    by (simp add: sequential_queued2 link0_def)
  have h1: "1 \<le> Map_size (queue (queued2 link0))"
    by (simp add: q0 Map_size_def)
  have h2: "fst (sync (queued2 link0) (\<lambda>k. Rejected offline) [] 9) = None"
    using s0
    by (simp add: sync_def Let_def q0 Map_size_def updateStatus_frame settle_concurrent_Cons
        replay_concurrent_def networkError_response_def offline_def get_prop_def
        split: prod.splits)
  from persist_follows_add_and_remove
         [of "queued2 link0" "''a3''" JNull JNull "[]" "\<lambda>k. Rejected offline" "[]" 9]
       h1 h2
  show ?thesis by simp
qed

text \<open>
  C5 as stated fails inside a pass. In a sequential pass over two attempts that both
  succeed, the state \<^verbatim>\<open>sync\<close> is in after the second deletion, just before it ends
  the pass, has an empty queue while the storage still holds both attempts: two
  deletions are not persisted.
\<close>

theorem persist_lags_inside_sync_counterexample:
  "persisted (queued2 link1)
   \<and> Map_size (queue (queued2 link1)) = 2
   \<and> getQueue (queued2 link1) = Inr [(JStr ''a1'', item1), (JStr ''a2'', item2)]
   \<and> Map_size (queue (snd (sync_sequential (updateStatus (queued2 link1) True)
                               (queue (queued2 link1)) (\<lambda>k. Resolved JNull)))) = 0
   \<and> getQueue (snd (sync_sequential (updateStatus (queued2 link1) True)
                       (queue (queued2 link1)) (\<lambda>k. Resolved JNull)))
       = Inr [(JStr ''a1'', item1), (JStr ''a2'', item2)]
   \<and> \<not> persisted (snd (sync_sequential (updateStatus (queued2 link1) True)
                           (queue (queued2 link1)) (\<lambda>k. Resolved JNull)))
   \<and> snd (sync (queued2 link1) (\<lambda>k. Resolved JNull) [] 9) =
       sync_end (snd (sync_sequential (updateStatus (queued2 link1) True)
                        (queue (queued2 link1)) (\<lambda>k. Resolved JNull))) 9"
proof -
  let ?st' = "snd (sync_sequential (updateStatus (queued2 link1) True)
                     (queue (queued2 link1)) (\<lambda>k. Resolved JNull))"
  have q: "queue (queued2 link1) = [(JStr ''a1'', item1), (JStr ''a2'', item2)]"
    by (rule queue_queued2) (simp add: link1_def link0_def)
  have p: "persisted (queued2 link1)"
    by (rule persisted_queued2)
  then have st: "storage (queued2 link1) ''@offlineLink'' =
      Some (JsonText (JArr [JArr [JStr ''a1'', item1], JArr [JStr ''a2'', item2]]))"
    by (simp add: persisted_def q JSON_stringify_def spread_Map_def item1_def item2_def)
  have pr: "provider (queued2 link1) = Asynchronous"
    by (simp add: frame_queued2 link1_def link0_def)
  have g: "getQueue (queued2 link1) = Inr [(JStr ''a1'', item1), (JStr ''a2'', item2)]"
    by (simp add: getQueue_def getItem_def getQueue_settled_def st pr Map_set_def Map_has_def)
  have q': "queue ?st' = []"
    using queue_sync_sequential [of "updateStatus (queued2 link1) True" "queue (queued2 link1)"
        "\<lambda>k. Resolved JNull"]
    by (simp add: updateStatus_frame q Map_ok_two)
  have s': "storage ?st' = storage (queued2 link1)"
    by (simp add: frame_sync_sequential updateStatus_frame)
  have g': "getQueue ?st' = getQueue (queued2 link1)"
    by (simp add: getQueue_def getItem_def s' pr frame_sync_sequential updateStatus_frame)
  have c2: "Map_size (queue (queued2 link1)) = 2"
    by (simp add: q Map_size_def)
  have c3: "getQueue (queued2 link1) = Inr [(JStr ''a1'', item1), (JStr ''a2'', item2)]"
    by (rule g)
  have c4: "Map_size (queue ?st') = 0"
    by (simp only: q' Map_size_def list.size)
  have c5: "getQueue ?st' = Inr [(JStr ''a1'', item1), (JStr ''a2'', item2)]"
    by (simp only: g' c3)
  have c6: "\<not> persisted ?st'"
    unfolding persisted_def s' q' st by (simp add: JSON_stringify_def spread_Map_def)
  have "sequential (queued2 link1)"
    by (simp add: sequential_queued2 link1_def)
  moreover have "\<not> Map_size (queue (queued2 link1)) < 1"
    by (simp add: q Map_size_def)
  ultimately have c7: "snd (sync (queued2 link1) (\<lambda>k. Resolved JNull) [] 9) = sync_end ?st' 9"
    by (simp add: snd_sync Let_def fst_sync_sequential_settled)
  from p c2 c3 c4 c5 c6 c7 show ?thesis
    by (intro conjI)
qed

lemma mid_sync_facts:
  "queue mid_sync = [(JStr ''a2'', item2)]" "syncStatus mid_sync = Some (2, True)"
proof -
  have q: "queue (queued2 link1) = [(JStr ''a1'', item1), (JStr ''a2'', item2)]"
    by (rule queue_queued2) (simp add: link1_def link0_def)
  show "queue mid_sync = [(JStr ''a2'', item2)]"
    by (simp add: mid_sync_def queue_replay_sequential emit_def updateStatus_frame q
        Map_delete_def)
  show "syncStatus mid_sync = Some (2, True)"
    by (simp add: mid_sync_def frame_replay_sequential emit_def updateStatus_def q Map_size_def)
qed

text \<open>
  C10: every \<^verbatim>\<open>saveQueue\<close>, also the one \<^verbatim>\<open>add\<close> makes and the one \<^verbatim>\<open>remove\<close>
  makes when an intercepted write succeeds, publishes the SyncStatus with the current
  size of the queue and \<open>inflight = False\<close>. So after \<^verbatim>\<open>sync\<close> has published
  \<open>inflight = True\<close>, an \<^verbatim>\<open>add\<close> or a \<^verbatim>\<open>remove\<close> that runs before the cycle ends puts
  the published flag back to false.
\<close>

theorem saveQueue_publishes_not_inflight:
  "syncStatus (saveQueue st) = Some (Map_size (queue st), False)
   \<and> syncStatus (snd (add st uuid item)) = Some (Map_size (queue (snd (add st uuid item))), False)
   \<and> syncStatus (remove st attemptId) = Some (Map_size (queue (remove st attemptId)), False)
   \<and> syncStatus (request_next st attemptId result)
       = Some (Map_size (queue (request_next st attemptId result)), False)
   \<and> syncStatus (updateStatus st True) = Some (Map_size (queue st), True)
   \<and> syncStatus (snd (add (updateStatus st True) uuid item))
       = Some (Map_size (queue (snd (add (updateStatus st True) uuid item))), False)
   \<and> syncStatus (remove (updateStatus st True) attemptId)
       = Some (Map_size (queue (remove (updateStatus st True) attemptId)), False)"
  by (simp add: add_def remove_def request_next_def syncStatus_saveQueue queue_saveQueue
      emit_def Let_def updateStatus_def)

theorem saveQueue_publishes_not_inflight_witness:
  "syncStatus (updateStatus link0 True) = Some (0, True)
   \<and> syncStatus (snd (add (updateStatus link0 True) ''a1'' JNull)) = Some (1, False)
   \<and> syncStatus (remove (updateStatus link0 True) (JStr ''a1'')) = Some (0, False)
   \<and> syncStatus mid_sync = Some (2, True)
   \<and> syncStatus (snd (add mid_sync ''a3'' JNull)) = Some (2, False)
   \<and> syncStatus (remove mid_sync (JStr ''a2'')) = Some (0, False)"
  using saveQueue_publishes_not_inflight [of link0 "''a1''" JNull "JStr ''a1''" JNull]
        saveQueue_publishes_not_inflight [of mid_sync "''a3''" JNull "JStr ''a2''" JNull]
  by (simp add: link0_def add_def remove_def queue_saveQueue syncStatus_saveQueue
      updateStatus_def emit_def Let_def Map_size_def Map_set_def Map_has_def Map_delete_def
      mid_sync_facts)

section \<open>Hydration\<close>

lemma getQueue_settled_empty:
  "getQueue_settled (Resolved None) = []"
  "getQueue_settled (Resolved (Some Malformed)) = []"
  "JSON_parse stored = Inr v \<Longrightarrow> new_Map v = Inl e \<Longrightarrow> getQueue_settled (Resolved stored) = []"
  "getQueue_settled (Rejected err) = []"
  by (simp_all add: getQueue_settled_def)

text \<open>
  With a provider whose \<^verbatim>\<open>getItem\<close> returns a promise, \<^verbatim>\<open>getQueue\<close> answers with
  an empty Map when nothing is stored under the key, when what is stored does not
  parse, when it parses to something that is not a list of entries, and when the read
  is rejected.
\<close>

lemma getQueue_of_a_promise:
  "provider st = Asynchronous \<Longrightarrow> storage st ''@offlineLink'' = None \<Longrightarrow> getQueue st = Inr []"
  "provider st = Asynchronous \<Longrightarrow> storage st ''@offlineLink'' = Some Malformed \<Longrightarrow> getQueue st = Inr []"
  "provider st = Asynchronous \<Longrightarrow> JSON_parse (storage st ''@offlineLink'') = Inr v \<Longrightarrow>
     new_Map v = Inl e \<Longrightarrow> getQueue st = Inr []"
  "provider st = Failing err \<Longrightarrow> getQueue st = Inr []"
  by (simp_all add: getQueue_def getItem_def getQueue_settled_def)

text \<open>
  C7 fails with \<^verbatim>\<open>window.localStorage\<close>, the provider that the documentation of the
  constructor and the message of its error name. \<^verbatim>\<open>getItem\<close> of it returns the
  stored string, or \<^verbatim>\<open>null\<close> when the key is absent, and not a promise: the call of
  \<^verbatim>\<open>.then\<close> on that in \<^verbatim>\<open>getQueue\<close> throws a TypeError before the \<^verbatim>\<open>catch\<close>
  is attached. So on such a link \<^verbatim>\<open>getQueue\<close> throws whatever is stored, on the
  first run and on text that does not parse as well, and the promise \<^verbatim>\<open>setup\<close>
  returns is rejected with the link left as it was; over a provider that returns
  promises the same two storages give the empty queue.
\<close>

theorem getQueue_throws_on_localStorage:
  "getItem (st\<lparr>provider := Synchronous\<rparr>) ''@offlineLink'' = Value (storage st ''@offlineLink'')
   \<and> getQueue (st\<lparr>provider := Synchronous\<rparr>) = Inl TypeError
   \<and> setup_link (st\<lparr>provider := Synchronous\<rparr>) net choices now
       = (Some TypeError, st\<lparr>provider := Synchronous\<rparr>)
   \<and> OfflineLink (Some (Synchronous, Map.empty)) (Some 1000) None = Inr local0
   \<and> storage local0 ''@offlineLink'' = None
   \<and> getQueue local0 = Inl TypeError
   \<and> setup_link local0 net choices now = (Some TypeError, local0)
   \<and> storage local_corrupt0 ''@offlineLink'' = Some Malformed
   \<and> getQueue local_corrupt0 = Inl TypeError
   \<and> setup_link local_corrupt0 net choices now = (Some TypeError, local_corrupt0)
   \<and> getQueue link0 = Inr []
   \<and> getQueue corrupt0 = Inr []"
  by (simp add: getQueue_def getItem_def setup_link_def OfflineLink_def local0_def
      local_corrupt0_def corrupt0_def link0_def getQueue_settled_def)

lemma to_json_representable:
  "representable v \<Longrightarrow> to_json v = Some v"
  "representable_elems xs \<Longrightarrow> to_json_elems xs = xs"
  "representable_props ps \<Longrightarrow> to_json_props ps = ps"
  by (induction v and xs and ps rule: to_json_to_json_elems_to_json_props.induct) auto

lemma as_element_representable: "representable v \<Longrightarrow> as_element v = v"
  by (simp add: as_element_def to_json_representable)

lemma representable_props_append:
  "representable_props (ps @ qs) = (representable_props ps \<and> representable_props qs)"
  by (induction ps) auto

text \<open>What \<^verbatim>\<open>JSON.stringify\<close> writes is a JSON value.\<close>

lemma representable_to_json:
  "to_json v = Some y \<Longrightarrow> representable y"
  "representable_elems (to_json_elems xs)"
  "representable_props (to_json_props ps)"
  by (induction v and xs and ps arbitrary: y rule: to_json_to_json_elems_to_json_props.induct)
     (auto simp: representable_props_append split: option.splits)

lemma representable_as_element: "representable (as_element v)"
  by (cases "to_json v") (simp_all add: as_element_def representable_to_json)

lemma to_json_elems_spread:
  "to_json_elems (spread_Map q) = map (\<lambda>e. JArr [as_element (fst e), as_element (snd e)]) q"
  by (induction q) (simp_all add: spread_Map_def as_element_def)

lemma add_entries_pairs:
  "distinct (map fst m @ map f q) \<Longrightarrow> \<forall>e \<in> set q. Map_key (f e) = f e \<Longrightarrow>
   add_entries m (map (\<lambda>e. JArr [f e, g e]) q) = Inr (m @ map (\<lambda>e. (f e, g e)) q)"
proof (induction q arbitrary: m)
  case Nil
  then show ?case by simp
next
  case (Cons e q)
  from Cons.prems(2) have kk: "Map_key (f e) = f e"
    by simp
  from Cons.prems(1) have fresh: "\<not> Map_has m (f e)"
    by (auto simp: Map_has_def kk)
  from Cons.prems(1) have "distinct (map fst (m @ [(f e, g e)]) @ map f q)"
    by auto
  moreover from Cons.prems(2) have "\<forall>e \<in> set q. Map_key (f e) = f e"
    by simp
  ultimately have "add_entries (m @ [(f e, g e)]) (map (\<lambda>e. JArr [f e, g e]) q)
      = Inr ((m @ [(f e, g e)]) @ map (\<lambda>e. (f e, g e)) q)"
    by (rule Cons.IH)
  then show ?case
    using fresh by (simp add: Map_set_fresh kk)
qed

lemma representable_key: "representable k \<Longrightarrow> Map_key k = k"
  by (cases k) (simp_all add: Map_key_def)

lemma getQueue_saveQueue:
  assumes "provider st = Asynchronous"
    and "distinct (map fst (queue st))" and "\<forall>e \<in> set (queue st). representable (fst e)"
  shows "getQueue (saveQueue st) = Inr (map (\<lambda>e. (fst e, as_element (snd e))) (queue st))"
proof -
  have keys: "map (\<lambda>e. as_element (fst e)) (queue st) = map fst (queue st)"
    using assms(3) by (simp add: as_element_representable)
  have "storage (saveQueue st) ''@offlineLink'' =
      Some (JsonText (JArr (map (\<lambda>e. JArr [as_element (fst e), as_element (snd e)]) (queue st))))"
    by (simp add: storage_saveQueue JSON_stringify_def to_json_elems_spread)
  moreover have "add_entries [] (map (\<lambda>e. JArr [as_element (fst e), as_element (snd e)]) (queue st))
      = Inr ([] @ map (\<lambda>e. (as_element (fst e), as_element (snd e))) (queue st))"
    using assms(3)
    by (intro add_entries_pairs) (simp_all add: keys assms(2) as_element_representable representable_key)
  moreover have "map (\<lambda>e. (as_element (fst e), as_element (snd e))) (queue st)
      = map (\<lambda>e. (fst e, as_element (snd e))) (queue st)"
    using assms(3) by (simp add: as_element_representable)
  ultimately show ?thesis
    by (simp add: getQueue_def getItem_def getQueue_settled_def saveQueue_frame assms(1))
qed

text \<open>
  What does not come back as it was queued: \<^verbatim>\<open>undefined\<close> and a function (dropped
  from an object, \<^verbatim>\<open>null\<close> in an array), \<^verbatim>\<open>NaN\<close> and the infinities
  (\<^verbatim>\<open>null\<close>), \<^verbatim>\<open>-0\<close> (\<^verbatim>\<open>0\<close>), a Date (a string) and an instance of a class (a
  plain object).
\<close>

lemma not_written_as_they_are:
  "as_element (JObj [(''a'', JUndefined), (''b'', JFunction)]) = JObj []"
  "as_element (JArr [JUndefined, JFunction, JNaN, JInfinity b]) = JArr [JNull, JNull, JNull, JNull]"
  "as_element JNegZero = JNum 0"
  "as_element (JDate s) = JStr s"
  "as_element (JInstance c ps) = JObj (to_json_props ps)"
  by (simp_all add: as_element_def)

text \<open>
  C6, as the code has it, over a storage provider whose \<^verbatim>\<open>getItem\<close> returns a
  promise: \<^verbatim>\<open>saveQueue\<close> followed by \<^verbatim>\<open>getQueue\<close> gives a queue with as many
  attempts, in the same insertion order and with the same ids; each payload comes back
  as \<^verbatim>\<open>JSON.stringify\<close> wrote it, and so the queue comes back as it was exactly when
  every payload is a JSON value: built from \<^verbatim>\<open>null\<close>, booleans, strings and finite
  numbers other than \<^verbatim>\<open>-0\<close> with arrays and plain objects. The ids are distinct,
  as the keys of a Map are, and JSON values, as the uuid strings of \<^verbatim>\<open>add\<close> are.
\<close>

theorem persist_hydrate_roundtrip:
  assumes "provider st = Asynchronous"
    and "distinct (map fst (queue st))" and "\<forall>e \<in> set (queue st). representable (fst e)"
  shows "\<exists>q. getQueue (saveQueue st) = Inr q
    \<and> q = map (\<lambda>e. (fst e, as_element (snd e))) (queue st)
    \<and> Map_size q = Map_size (queue st)
    \<and> map fst q = map fst (queue st)
    \<and> ((q = queue st) = (\<forall>e \<in> set (queue st). representable (snd e)))"
proof -
  note g = getQueue_saveQueue [OF assms]
  have same: "map (\<lambda>e. (fst e, as_element (snd e))) (queue st) = queue st"
    if "\<forall>e \<in> set (queue st). representable (snd e)"
    using that by (simp add: as_element_representable map_idI)
  have json: "representable (snd e)"
    if "map (\<lambda>e. (fst e, as_element (snd e))) (queue st) = queue st" and "e \<in> set (queue st)" for e
  proof -
    from that(1) have "map snd (map (\<lambda>e. (fst e, as_element (snd e))) (queue st)) = map snd (queue st)"
      by simp
    then have "map (\<lambda>e. as_element (snd e)) (queue st) = map snd (queue st)"
      by (simp add: comp_def)
    with that(2) have "as_element (snd e) = snd e"
      by simp
    then show ?thesis
      using representable_as_element [of "snd e"] by simp
  qed
  from same json
  have "(map (\<lambda>e. (fst e, as_element (snd e))) (queue st) = queue st)
      = (\<forall>e \<in> set (queue st). representable (snd e))"
    by blast
  then show ?thesis
    by (simp add: g Map_size_def comp_def)
qed

theorem persist_hydrate_roundtrip_witness:
  "provider (queued2 link0) = Asynchronous
   \<and> distinct (map fst (queue (queued2 link0)))
   \<and> representable (JStr ''a1'') \<and> representable (JStr ''a2'')
   \<and> representable item1 \<and> representable item2
   \<and> queue (queued2 link0) = [(JStr ''a1'', item1), (JStr ''a2'', item2)]
   \<and> getQueue (saveQueue (queued2 link0)) = Inr [(JStr ''a1'', item1), (JStr ''a2'', item2)]"
proof -
  have q0: "queue (queued2 link0) = [(JStr ''a1'', item1), (JStr ''a2'', item2)]"
    by (rule queue_queued2) (simp add: link0_def)
  have h0: "provider (queued2 link0) = Asynchronous"
    by (simp add: frame_queued2 link0_def)
  have h1: "distinct (map fst (queue (queued2 link0)))"
    by (simp add: q0)
  have h2: "\<forall>e \<in> set (queue (queued2 link0)). representable (fst e)"
    by (simp add: q0)
  have h3: "\<forall>e \<in> set (queue (queued2 link0)). representable (snd e)"
    by (simp add: q0 item1_def item2_def)
  from persist_hydrate_roundtrip [OF h0 h1 h2] h3
  have g: "getQueue (saveQueue (queued2 link0)) = Inr [(JStr ''a1'', item1), (JStr ''a2'', item2)]"
    by (auto simp: q0)
  have r: "representable (JStr ''a1'') \<and> representable (JStr ''a2'')
      \<and> representable item1 \<and> representable item2"
    by (simp add: item1_def item2_def)
  from h0 h1 r q0 g show ?thesis
    by (intro conjI) simp_all
qed

text \<open>
  C6 as stated fails for a payload with \<^verbatim>\<open>undefined\<close> in it. A write whose
  variables are \<^verbatim>\<open>{note: undefined}\<close> is queued with them and hydrated without the
  property: the payload that comes back is not the one that was queued.
\<close>

theorem persist_hydrate_roundtrip_counterexample:
  "queue (snd (request link0 write3 ''a1'')) =
     [(JStr ''a1'', JObj [(''mutation'', JStr ''mutation W3''),
                          (''variables'', JObj [(''note'', JUndefined)]),
                          (''optimisticResponse'', JObj [(''ok'', JBool True)])])]
   \<and> getQueue (saveQueue (snd (request link0 write3 ''a1''))) =
     Inr [(JStr ''a1'', JObj [(''mutation'', JStr ''mutation W3''),
                              (''variables'', JObj []),
                              (''optimisticResponse'', JObj [(''ok'', JBool True)])])]
   \<and> getQueue (saveQueue (snd (request link0 write3 ''a1'')))
       \<noteq> Inr (queue (snd (request link0 write3 ''a1'')))"
proof -
  have q: "queue (snd (request link0 write3 ''a1'')) =
     [(JStr ''a1'', JObj [(''mutation'', JStr ''mutation W3''),
                          (''variables'', JObj [(''note'', JUndefined)]),
                          (''optimisticResponse'', JObj [(''ok'', JBool True)])])]"
    by (simp add: request_def add_def Let_def emit_def queue_saveQueue write3_def get_prop_def
        link0_def Map_set_def Map_has_def)
  have pr: "provider (snd (request link0 write3 ''a1'')) = Asynchronous"
    by (simp add: frame_request link0_def)
  have "getQueue (saveQueue (snd (request link0 write3 ''a1''))) =
      Inr (map (\<lambda>e. (fst e, as_element (snd e))) (queue (snd (request link0 write3 ''a1''))))"
    by (rule getQueue_saveQueue) (simp_all add: q pr)
  then have g: "getQueue (saveQueue (snd (request link0 write3 ''a1''))) =
     Inr [(JStr ''a1'', JObj [(''mutation'', JStr ''mutation W3''),
                              (''variables'', JObj []),
                              (''optimisticResponse'', JObj [(''ok'', JBool True)])])]"
    by (simp add: q as_element_def)
  show ?thesis
    unfolding g q by simp
qed

section \<open>The debounced cycle of the link\<close>

lemma OfflineLink_delayedSync:
  assumes "OfflineLink (Some store) retryInterval_opt sequential_opt = Inr st0"
  shows "delayedSync st0 = debounce (case retryInterval_opt of None \<Rightarrow> 30000 | Some n \<Rightarrow> n)"
  using assms by (cases store) (auto simp: OfflineLink_def)

lemma delayedSync_sync_end:
  "delayedSync (sync_end st now) =
     (if 0 < Map_size (queue st) then debounced_call (delayedSync st) now else delayedSync st)"
  by (simp add: sync_end_def Let_def call_delayedSync_def queue_saveQueue saveQueue_frame)

lemma delayedSync_sync:
  "delayedSync (snd (sync st net choices now)) = delayedSync st
   \<or> delayedSync (snd (sync st net choices now)) = debounced_call (delayedSync st) now"
  by (simp add: snd_sync Let_def delayedSync_sync_end frame_sync_sequential
      frame_settle_concurrent mutate_all_frame updateStatus_frame)

text \<open>No function of the link changes the wait of its debounced function.\<close>

lemma wait_kept:
  "wait (delayedSync (snd (request st operation uuid))) = wait (delayedSync st)"
  "wait (delayedSync (request_next st attemptId result)) = wait (delayedSync st)"
  "wait (delayedSync (request_error st operation now err)) = wait (delayedSync st)"
  "wait (delayedSync (request_complete st)) = wait (delayedSync st)"
  "wait (delayedSync (snd (sync st net choices now))) = wait (delayedSync st)"
proof -
  show "wait (delayedSync (snd (request st operation uuid))) = wait (delayedSync st)"
    by (simp add: frame_request)
  show "wait (delayedSync (request_next st attemptId result)) = wait (delayedSync st)"
    by (simp add: request_next_def remove_def emit_def saveQueue_frame)
  show "wait (delayedSync (request_error st operation now err)) = wait (delayedSync st)"
    by (simp add: request_error_def call_delayedSync_def emit_def Let_def wait_debounced_call)
  show "wait (delayedSync (request_complete st)) = wait (delayedSync st)"
    by (simp add: request_complete_def emit_def)
  show "wait (delayedSync (snd (sync st net choices now))) = wait (delayedSync st)"
    using delayedSync_sync [of st net choices now] by (auto simp: wait_debounced_call)
qed

lemma wait_kept_by_the_timeout:
  "wait (delayedSync (snd (delayedSync_timeout st now net choices))) = wait (delayedSync st)"
  using wait_timerExpired [of "delayedSync st" now]
  by (simp add: delayedSync_timeout_def case_prod_beta Let_def wait_kept(5))

lemma wait_kept_by_setup:
  "wait (delayedSync (snd (setup_link st net choices now))) = wait (delayedSync st)"
  by (cases "getQueue st") (simp_all add: setup_link_def wait_kept(5))

text \<open>
  A trigger calls the debounced function and leaves the queue as it is; the end of a
  pass is a trigger when attempts are left.
\<close>

lemma trigger_at_calls:
  assumes "ev = PassEnds \<longrightarrow> queue st \<noteq> []"
  shows "delayedSync (trigger_at st t ev) = debounced_call (delayedSync st) t"
    and "queue (trigger_at st t ev) = queue st"
  using assms
  by (cases ev;
      simp add: trigger_at_def request_error_def call_delayedSync_def emit_def Let_def
        delayedSync_sync_end sync_end_frame Map_size_def)+

lemma run_link_timers_idle:
  "timerId (delayedSync st) = None \<Longrightarrow> run_link_timers fuel st T net choices = Some ([], st)"
  by (cases fuel) simp_all

lemma run_link_timers_not_due:
  "timerId (delayedSync st) = Some due \<Longrightarrow> T < due \<Longrightarrow>
   run_link_timers fuel st T net choices = Some ([], st)"
  by (cases fuel) simp_all

lemma run_link_timers_due:
  "timerId (delayedSync st) = Some due \<Longrightarrow> due \<le> T \<Longrightarrow>
   run_link_timers (Suc fuel) st T net choices =
     (let r = delayedSync_timeout st due (net due) (choices due)
      in case run_link_timers fuel (snd r) T net choices of
           None \<Rightarrow> None
         | Some (later, st2) \<Rightarrow> Some ((if fst r then [due] else []) @ later, st2))"
  by (simp add: Let_def case_prod_beta)

lemma run_link_timers_early:
  assumes "waiting w (delayedSync st) t" and "T < t + w" and "1 \<le> fuel"
  shows "\<exists>d due. run_link_timers fuel st T net choices = Some ([], st\<lparr>delayedSync := d\<rparr>)
      \<and> waiting w d t \<and> timerId d = Some due \<and> T < due"
proof -
  let ?d = "delayedSync st"
  from assms(1) obtain due where due: "timerId ?d = Some due" "t \<le> due" "due \<le> t + w"
    and d: "wait ?d = w" "lastCallTime ?d = Some t" "lastArgs ?d"
    by (auto simp: waiting_def split: option.splits)
  from assms(3) obtain f where f: "fuel = Suc f"
    by (cases fuel) auto
  show ?thesis
  proof (cases "T < due")
    case True
    then have "run_link_timers fuel st T net choices = Some ([], st\<lparr>delayedSync := ?d\<rparr>)"
      using due(1) by (simp add: run_link_timers_not_due)
    with assms(1) due(1) True show ?thesis by blast
  next
    case False
    then have le: "due \<le> T" by simp
    with assms(2) have lt: "due < t + w" by simp
    let ?d1 = "?d\<lparr>timerId := Some (t + w)\<rparr>"
    let ?st1 = "st\<lparr>delayedSync := ?d1\<rparr>"
    have exp: "timerExpired ?d due = (False, ?d1)"
      using assms(1) due(1) lt by (rule timerExpired_early)
    have out: "delayedSync_timeout st due (net due) (choices due) = (False, ?st1)"
      by (simp add: delayedSync_timeout_def exp)
    have rest: "run_link_timers f ?st1 T net choices = Some ([], ?st1)"
      using assms(2) by (simp add: run_link_timers_not_due)
    have "run_link_timers fuel st T net choices = Some ([], ?st1)"
      unfolding f run_link_timers_due [OF due(1) le] by (simp add: out rest)
    moreover have "waiting w ?d1 t"
      using d by (simp add: waiting_def)
    moreover have "timerId ?d1 = Some (t + w)"
      by simp
    ultimately show ?thesis
      using assms(2) by blast
  qed
qed

lemma run_link_timers_fire:
  assumes "timerId (delayedSync st) = Some (t + w)" and "wait (delayedSync st) = w"
    and "lastCallTime (delayedSync st) = Some t" and "lastArgs (delayedSync st)"
    and "t + w \<le> T" and "T < t + 2 * w" and "1 \<le> fuel"
  shows "run_link_timers fuel st T net choices =
     Some ([t + w],
           snd (sync (st\<lparr>delayedSync := (delayedSync st)\<lparr>timerId := None, lastArgs := False\<rparr>\<rparr>)
                  (net (t + w)) (choices (t + w)) (t + w)))"
proof -
  let ?d = "delayedSync st"
  let ?d1 = "?d\<lparr>timerId := None, lastArgs := False\<rparr>"
  let ?st1 = "st\<lparr>delayedSync := ?d1\<rparr>"
  let ?st2 = "snd (sync ?st1 (net (t + w)) (choices (t + w)) (t + w))"
  from assms(7) obtain f where f: "fuel = Suc f"
    by (cases fuel) auto
  have exp: "timerExpired ?d (t + w) = (True, ?d1)"
    using assms(2,3,4) by (rule timerExpired_late)
  have out: "delayedSync_timeout st (t + w) (net (t + w)) (choices (t + w)) = (True, ?st2)"
    by (simp add: delayedSync_timeout_def exp)
  have again: "timerId (debounced_call ?d1 (t + w)) = Some (t + w + w)"
    using assms(2) by (simp add: debounced_call_def leadingEdge_def shouldInvoke_def Let_def)
  have rest: "run_link_timers f ?st2 T net choices = Some ([], ?st2)"
  proof -
    from delayedSync_sync [of ?st1 "net (t + w)" "choices (t + w)" "t + w"]
    consider "delayedSync ?st2 = ?d1" | "delayedSync ?st2 = debounced_call ?d1 (t + w)"
      by auto
    then show ?thesis
    proof cases
      case 1
      then have "timerId (delayedSync ?st2) = None" by simp
      then show ?thesis by (rule run_link_timers_idle)
    next
      case 2
      then have "timerId (delayedSync ?st2) = Some (t + w + w)"
        using again by simp
      moreover have "T < t + w + w"
        using assms(6) by simp
      ultimately show ?thesis by (rule run_link_timers_not_due)
    qed
  qed
  show ?thesis
    unfolding f run_link_timers_due [OF assms(1) assms(5)] by (simp add: out rest)
qed

lemma run_link_timers_late:
  assumes "waiting w (delayedSync st) t" and "t + w \<le> T" and "T < t + 2 * w" and "2 \<le> fuel"
  shows "run_link_timers fuel st T net choices =
     Some ([t + w],
           snd (sync (st\<lparr>delayedSync := (delayedSync st)\<lparr>timerId := None, lastArgs := False\<rparr>\<rparr>)
                  (net (t + w)) (choices (t + w)) (t + w)))"
proof -
  let ?d = "delayedSync st"
  from assms(1) obtain due where due: "timerId ?d = Some due" "t \<le> due" "due \<le> t + w"
    and d: "wait ?d = w" "lastCallTime ?d = Some t" "lastArgs ?d"
    by (auto simp: waiting_def split: option.splits)
  show ?thesis
  proof (cases "due = t + w")
    case True
    with due(1) have "timerId ?d = Some (t + w)" by simp
    then show ?thesis
      using d assms(2,3) by (rule run_link_timers_fire) (use assms(4) in simp)
  next
    case False
    then have lt: "due < t + w" using due(3) by simp
    then have le: "due \<le> T" using assms(2) by simp
    from assms(4) obtain f where f: "fuel = Suc f" "1 \<le> f"
      by (cases fuel) auto
    let ?d1 = "?d\<lparr>timerId := Some (t + w)\<rparr>"
    let ?st1 = "st\<lparr>delayedSync := ?d1\<rparr>"
    have exp: "timerExpired ?d due = (False, ?d1)"
      using assms(1) due(1) lt by (rule timerExpired_early)
    have out: "delayedSync_timeout st due (net due) (choices due) = (False, ?st1)"
      by (simp add: delayedSync_timeout_def exp)
    have "run_link_timers f ?st1 T net choices =
       Some ([t + w],
             snd (sync (?st1\<lparr>delayedSync := (delayedSync ?st1)\<lparr>timerId := None, lastArgs := False\<rparr>\<rparr>)
                    (net (t + w)) (choices (t + w)) (t + w)))"
      using f(2) by (intro run_link_timers_fire) (simp_all add: d assms(2,3))
    then have rest: "run_link_timers f ?st1 T net choices =
       Some ([t + w],
             snd (sync (st\<lparr>delayedSync := ?d\<lparr>timerId := None, lastArgs := False\<rparr>\<rparr>)
                    (net (t + w)) (choices (t + w)) (t + w)))"
      by simp
    show ?thesis
      unfolding f(1) run_link_timers_due [OF due(1) le] by (simp add: out rest)
  qed
qed

lemma last_times: "evs \<noteq> [] \<Longrightarrow> last (t # map fst evs) = fst (last evs)"
  by (simp add: last_map)

lemma run_triggers_waiting:
  assumes "waiting w (delayedSync st) t" and "closely_spaced w (t # map fst evs)"
    and "PassEnds \<in> snd ` set evs \<longrightarrow> queue st \<noteq> []" and "1 \<le> fuel"
  shows "\<exists>st1. run_triggers fuel st evs net choices = Some ([], st1)
      \<and> waiting w (delayedSync st1) (last (t # map fst evs)) \<and> queue st1 = queue st"
  using assms(1,2,3)
proof (induction evs arbitrary: st t)
  case Nil
  then show ?case by simp
next
  case (Cons e evs)
  obtain t' ev where e: "e = (t', ev)" by (cases e)
  from Cons.prems(2) have t': "t \<le> t'" "t' < t + w" and sp: "closely_spaced w (t' # map fst evs)"
    by (simp_all add: e)
  from run_link_timers_early [OF Cons.prems(1) t'(2) assms(4)]
  obtain d due where run: "run_link_timers fuel st t' net choices = Some ([], st\<lparr>delayedSync := d\<rparr>)"
    and w: "waiting w d t" and due: "timerId d = Some due" "t' < due"
    by blast
  let ?st' = "trigger_at (st\<lparr>delayedSync := d\<rparr>) t' ev"
  have calls: "ev = PassEnds \<longrightarrow> queue (st\<lparr>delayedSync := d\<rparr>) \<noteq> []"
    using Cons.prems(3) by (auto simp: e image_iff)
  have d': "delayedSync ?st' = debounced_call d t'"
    using trigger_at_calls(1) [OF calls] by simp
  have q': "queue ?st' = queue st"
    using trigger_at_calls(2) [OF calls] by simp
  have w': "waiting w (delayedSync ?st') t'"
    unfolding d' using w due t'(1) by (rule waiting_call_again)
  have p': "PassEnds \<in> snd ` set evs \<longrightarrow> queue ?st' \<noteq> []"
    using Cons.prems(3) by (auto simp: q')
  from Cons.IH [OF w' sp p']
  obtain st1 where st1: "run_triggers fuel ?st' evs net choices = Some ([], st1)"
    "waiting w (delayedSync st1) (last (t' # map fst evs))" "queue st1 = queue ?st'"
    by blast
  have "run_triggers fuel st (e # evs) net choices = Some ([], st1)"
    by (simp add: e run st1(1))
  moreover have "last (t # map fst (e # evs)) = last (t' # map fst evs)"
    by (simp add: e)
  ultimately show ?case
    using st1(2,3) q' by auto
qed

text \<open>
  C9: the link made by the constructor with a retry interval \<open>w\<close> (30000 when none is
  given) debounces its cycles. Take the link in any later state in which no timeout of
  \<^verbatim>\<open>delayedSync\<close> is pending, and any number of triggers, each less than \<open>w\<close>
  after the one before: failures of intercepted writes (the \<^verbatim>\<open>error\<close> callback of
  \<^verbatim>\<open>request\<close>) and ends of passes that leave attempts in the queue (the reschedule
  at the end of \<^verbatim>\<open>sync\<close>). Then \<^verbatim>\<open>sync\<close> is not executed while the triggers arrive,
  nor before \<open>w\<close> has passed since the last of them; it is executed at the last
  trigger plus \<open>w\<close>, on the link as the triggers left it, and not again before
  another \<open>w\<close> has passed: by then the execution itself may have asked for the next
  cycle. Two timeouts of \<^verbatim>\<open>delayedSync\<close> run at most, so fuel for two is enough.
\<close>

theorem debounced_sync_runs_once:
  assumes "OfflineLink (Some store) retryInterval_opt sequential_opt = Inr st0"
    and "w = (case retryInterval_opt of None \<Rightarrow> 30000 | Some n \<Rightarrow> n)"
    and "wait (delayedSync st) = wait (delayedSync st0)"
    and "timerId (delayedSync st) = None"
    and "evs \<noteq> []" and "closely_spaced w (map fst evs)"
    and "PassEnds \<in> snd ` set evs \<longrightarrow> queue st \<noteq> []"
    and "2 \<le> fuel"
  shows "\<exists>st1. run_triggers fuel st evs net choices = Some ([], st1)
      \<and> queue st1 = queue st
      \<and> (\<forall>T. (T < fst (last evs) + w \<longrightarrow>
                 (\<exists>st2. run_link_timers fuel st1 T net choices = Some ([], st2)))
              \<and> (fst (last evs) + w \<le> T \<and> T < fst (last evs) + 2 * w \<longrightarrow>
                   run_link_timers fuel st1 T net choices =
                     Some ([fst (last evs) + w],
                           snd (sync (st1\<lparr>delayedSync :=
                                        (delayedSync st1)\<lparr>timerId := None, lastArgs := False\<rparr>\<rparr>)
                                  (net (fst (last evs) + w)) (choices (fst (last evs) + w))
                                  (fst (last evs) + w)))))"
proof -
  from assms(5) obtain e rest where evs: "evs = e # rest"
    by (cases evs) auto
  obtain t ev where e: "e = (t, ev)" by (cases e)
  have fuel1: "1 \<le> fuel"
    using assms(8) by simp
  have wst: "wait (delayedSync st) = w"
    using OfflineLink_delayedSync [OF assms(1)] assms(2,3) by (simp add: debounce_def)
  have idle: "run_link_timers fuel st t net choices = Some ([], st)"
    using assms(4) by (rule run_link_timers_idle)
  let ?st' = "trigger_at st t ev"
  have calls: "ev = PassEnds \<longrightarrow> queue st \<noteq> []"
    using assms(7) by (auto simp: evs e image_iff)
  have d': "delayedSync ?st' = debounced_call (delayedSync st) t"
    by (rule trigger_at_calls(1) [OF calls])
  have q': "queue ?st' = queue st"
    by (rule trigger_at_calls(2) [OF calls])
  have w': "waiting w (delayedSync ?st') t"
    unfolding d' using waiting_call_first [OF assms(4), of t] by (simp add: wst)
  have sp: "closely_spaced w (t # map fst rest)"
    using assms(6) by (simp add: evs e)
  have p': "PassEnds \<in> snd ` set rest \<longrightarrow> queue ?st' \<noteq> []"
    using assms(7) by (auto simp: evs q')
  from run_triggers_waiting [OF w' sp p' fuel1]
  obtain st1 where st1: "run_triggers fuel ?st' rest net choices = Some ([], st1)"
    "waiting w (delayedSync st1) (last (t # map fst rest))" "queue st1 = queue ?st'"
    by blast
  have l: "last (t # map fst rest) = fst (last evs)"
    by (simp add: evs e last_map)
  have run: "run_triggers fuel st evs net choices = Some ([], st1)"
    by (simp add: evs e idle st1(1))
  have wl: "waiting w (delayedSync st1) (fst (last evs))"
    using st1(2) by (simp only: l)
  have early: "\<exists>st2. run_link_timers fuel st1 T net choices = Some ([], st2)"
    if "T < fst (last evs) + w" for T
    using run_link_timers_early [OF wl that fuel1] by blast
  have late: "run_link_timers fuel st1 T net choices =
      Some ([fst (last evs) + w],
            snd (sync (st1\<lparr>delayedSync := (delayedSync st1)\<lparr>timerId := None, lastArgs := False\<rparr>\<rparr>)
                   (net (fst (last evs) + w)) (choices (fst (last evs) + w))
                   (fst (last evs) + w)))"
    if "fst (last evs) + w \<le> T" and "T < fst (last evs) + 2 * w" for T
    using wl that assms(8) by (rule run_link_timers_late)
  from run st1(3) q' early late show ?thesis
    by (intro exI [of _ st1]) simp
qed

theorem debounced_sync_runs_once_witness:
  "OfflineLink (Some (Asynchronous, Map.empty)) (Some 1000) None = Inr link0
   \<and> wait (delayedSync (queued2 link0)) = wait (delayedSync link0)
   \<and> timerId (delayedSync (queued2 link0)) = None
   \<and> closely_spaced 1000 [0, 400, 1300]
   \<and> queue (queued2 link0) = [(JStr ''a1'', item1), (JStr ''a2'', item2)]
   \<and> (\<exists>st1. run_triggers 2 (queued2 link0)
               [(0, FailedWrite write1 offline), (400, PassEnds), (1300, FailedWrite write2 offline)]
               (\<lambda>t k. Rejected offline) (\<lambda>t. []) = Some ([], st1)
        \<and> (\<exists>st2. run_link_timers 2 st1 2299 (\<lambda>t k. Rejected offline) (\<lambda>t. []) = Some ([], st2))
        \<and> (\<exists>st2. run_link_timers 2 st1 2300 (\<lambda>t k. Rejected offline) (\<lambda>t. [])
                     = Some ([2300], st2))
        \<and> (\<exists>st2. run_link_timers 2 st1 3299 (\<lambda>t k. Rejected offline) (\<lambda>t. [])
                     = Some ([2300], st2)))"
proof -
  let ?evs = "[(0::nat, FailedWrite write1 offline), (400, PassEnds), (1300, FailedWrite write2 offline)]"
  have h1: "OfflineLink (Some (Asynchronous, Map.empty)) (Some 1000) None = Inr link0"
    by (simp add: OfflineLink_def link0_def)
  have h2: "(1000::nat) = (case Some 1000 of None \<Rightarrow> 30000 | Some n \<Rightarrow> n)"
    by simp
  have h3: "wait (delayedSync (queued2 link0)) = wait (delayedSync link0)"
    by (simp add: frame_queued2)
  have h4: "timerId (delayedSync (queued2 link0)) = None"
    by (simp add: frame_queued2 link0_def debounce_def)
  have h5: "?evs \<noteq> []"
    by simp
  have h6: "closely_spaced 1000 (map fst ?evs)"
    by simp
  have q: "queue (queued2 link0) = [(JStr ''a1'', item1), (JStr ''a2'', item2)]"
    by (rule queue_queued2) (simp add: link0_def)
  have h7: "PassEnds \<in> snd ` set ?evs \<longrightarrow> queue (queued2 link0) \<noteq> []"
    by (simp add: q)
  have h8: "(2::nat) \<le> 2"
    by simp
  from debounced_sync_runs_once [OF h1 h2 h3 h4 h5 h6 h7 h8, of "\<lambda>t k. Rejected offline" "\<lambda>t. []"]
  obtain st1 where run: "run_triggers 2 (queued2 link0) ?evs (\<lambda>t k. Rejected offline) (\<lambda>t. [])
        = Some ([], st1)"
    and after: "\<And>T. (T < 2300 \<longrightarrow>
           (\<exists>st2. run_link_timers 2 st1 T (\<lambda>t k. Rejected offline) (\<lambda>t. []) = Some ([], st2)))
         \<and> (2300 \<le> T \<and> T < 3300 \<longrightarrow>
           (\<exists>st2. run_link_timers 2 st1 T (\<lambda>t k. Rejected offline) (\<lambda>t. [])
                      = Some ([2300], st2)))"
    by auto
  have c: "closely_spaced 1000 [0, 400, 1300]"
    by simp
  from after [of 2299] after [of 2300] after [of 3299]
  have "(\<exists>st2. run_link_timers 2 st1 2299 (\<lambda>t k. Rejected offline) (\<lambda>t. []) = Some ([], st2))
      \<and> (\<exists>st2. run_link_timers 2 st1 2300 (\<lambda>t k. Rejected offline) (\<lambda>t. [])
                   = Some ([2300], st2))
      \<and> (\<exists>st2. run_link_timers 2 st1 3299 (\<lambda>t k. Rejected offline) (\<lambda>t. [])
                   = Some ([2300], st2))"
    by simp
  with run have "\<exists>st1. run_triggers 2 (queued2 link0) ?evs (\<lambda>t k. Rejected offline) (\<lambda>t. [])
        = Some ([], st1)
      \<and> (\<exists>st2. run_link_timers 2 st1 2299 (\<lambda>t k. Rejected offline) (\<lambda>t. []) = Some ([], st2))
      \<and> (\<exists>st2. run_link_timers 2 st1 2300 (\<lambda>t k. Rejected offline) (\<lambda>t. [])
                   = Some ([2300], st2))
      \<and> (\<exists>st2. run_link_timers 2 st1 3299 (\<lambda>t k. Rejected offline) (\<lambda>t. [])
                   = Some ([2300], st2))"
    by blast
  with h1 h3 h4 c q show ?thesis
    by (intro conjI)
qed

end
